theory Spec2Isabelle
  imports Main "HOL-Library.Word" "HOL-Library.Sublist"
begin

section \<open>Library functions used by handler.go\<close>

text \<open>
  handler.go calls a handful of functions of the Go standard library on strings. Go
  strings are byte sequences, so they are modelled as \<^typ>\<open>string\<close> (lists of 8-bit
  characters). The functions below follow the library's own code (package \<open>strings\<close>,
  \<open>net/ipsock.go\<close>, \<open>strconv/atoi.go\<close>), branch by branch.
\<close>

definition HasPrefix :: "string \<Rightarrow> string \<Rightarrow> bool" where
  \<comment> \<open>\<open>strings.HasPrefix(s, prefix)\<close>: \<open>len(s) >= len(prefix) && s[:len(prefix)] == prefix\<close>\<close>
  "HasPrefix s pre = (length pre \<le> length s \<and> take (length pre) s = pre)"

fun IndexByteString :: "string \<Rightarrow> char \<Rightarrow> nat option" where
  \<comment> \<open>index of the first occurrence of the byte, \<open>None\<close> for Go's \<open>-1\<close>\<close>
  "IndexByteString [] c = None"
| "IndexByteString (x # xs) c =
     (if x = c then Some 0 else map_option Suc (IndexByteString xs c))"

fun last_index :: "string \<Rightarrow> char \<Rightarrow> nat option" where
  \<comment> \<open>\<open>last(s, b)\<close> of package net: index of the last occurrence, \<open>None\<close> for \<open>-1\<close>\<close>
  "last_index [] c = None"
| "last_index (x # xs) c =
     (case last_index xs c of
        Some i \<Rightarrow> Some (Suc i)
      | None \<Rightarrow> (if x = c then Some 0 else None))"

datatype AddrError = AddrError (Err: string) (Addr: string)

definition SplitHostPort :: "string \<Rightarrow> AddrError + (string \<times> string)" where
  \<comment> \<open>\<open>net.SplitHostPort\<close>. \<open>hostport[0]\<close> is read only after a colon was found, so the
      string is not empty there; \<open>hostport[end+1]\<close> is read only when
      \<open>end + 1 < len(hostport)\<close>.\<close>
  "SplitHostPort hostport =
     (case last_index hostport CHR '':'' of
        None \<Rightarrow> Inl (AddrError ''missing port in address'' hostport)
      | Some i \<Rightarrow>
          let finish = (\<lambda>host j k.
                if IndexByteString (drop j hostport) CHR ''['' \<noteq> None
                then Inl (AddrError ''unexpected '[' in address'' hostport)
                else if IndexByteString (drop k hostport) CHR '']'' \<noteq> None
                then Inl (AddrError ''unexpected ']' in address'' hostport)
                else Inr (host, drop (i + 1) hostport))
          in
          if take 1 hostport = ''[''
          then (case IndexByteString hostport CHR '']'' of
                  None \<Rightarrow> Inl (AddrError ''missing ']' in address'' hostport)
                | Some e \<Rightarrow>
                    if e + 1 = length hostport
                    then Inl (AddrError ''missing port in address'' hostport)
                    else if e + 1 = i
                    then finish (take (e - 1) (drop 1 hostport)) 1 (e + 1)
                    else if take 1 (drop (e + 1) hostport) = '':''
                    then Inl (AddrError ''too many colons in address'' hostport)
                    else Inl (AddrError ''missing port in address'' hostport))
          else (let host = take i hostport in
                if IndexByteString host CHR '':'' \<noteq> None
                then Inl (AddrError ''too many colons in address'' hostport)
                else finish host 0 0))"

definition JoinHostPort :: "string \<Rightarrow> string \<Rightarrow> string" where
  \<comment> \<open>\<open>net.JoinHostPort\<close>: a host with a colon is taken for an IPv6 literal and bracketed\<close>
  "JoinHostPort host port =
     (if IndexByteString host CHR '':'' \<noteq> None
      then ''['' @ host @ '']:'' @ port
      else host @ '':'' @ port)"

definition is_digit :: "char \<Rightarrow> bool" where
  "is_digit c = (48 \<le> (of_char c :: nat) \<and> (of_char c :: nat) \<le> 57)"

fun parse_digits :: "string \<Rightarrow> int \<Rightarrow> int option" where
  \<comment> \<open>the digit loop of \<open>strconv.ParseUint\<close> in base 10; \<open>None\<close> is the syntax error\<close>
  "parse_digits [] acc = Some acc"
| "parse_digits (c # cs) acc =
     (if is_digit c then parse_digits cs (acc * 10 + (of_char c - 48)) else None)"

definition Atoi :: "string \<Rightarrow> int option" where
  \<comment> \<open>\<open>strconv.Atoi\<close> for a 64-bit \<open>int\<close>: an optional sign, then one or more decimal
      digits, and a value that fits; \<open>None\<close> is the error (syntax or range).\<close>
  "Atoi s =
     (case s of
        [] \<Rightarrow> None
      | c # cs \<Rightarrow>
          let neg = (c = CHR ''-'');
              ds = (if c = CHR ''+'' \<or> c = CHR ''-'' then cs else s)
          in if ds = [] then None
             else (case parse_digits ds 0 of
                     None \<Rightarrow> None
                   | Some u \<Rightarrow>
                       if neg then (if u > 9223372036854775808 then None else Some (- u))
                       else (if u \<ge> 9223372036854775808 then None else Some u)))"

section \<open>Protocol pre-detection: CheckPre\<close>

definition preProtocolUnknown :: int where "preProtocolUnknown = 0"
definition preProtocolHttp :: int where "preProtocolHttp = 1"
definition preProtocolHttps :: int where "preProtocolHttps = 2"

text \<open>
  The two port tables are package-level variables of handler.go; they are passed as a
  record, \<open>default_ports\<close> holding their initial values.
\<close>

record ports =
  preHttpPorts :: "int list"
  preHttpsPorts :: "int list"

definition default_ports :: ports where
  "default_ports = \<lparr>preHttpPorts = [80], preHttpsPorts = [443]\<rparr>"

fun in_list :: "int \<Rightarrow> int list \<Rightarrow> bool" where
  \<comment> \<open>\<open>in(v, l)\<close>\<close>
  "in_list v [] = False"
| "in_list v (i # l) = (if i = v then True else in_list v l)"

text \<open>
  \<open>net.ParseIP\<close> is a parameter: \<open>ParseIP host\<close> holds when the library returns a
  non-nil IP for \<open>host\<close>. CheckPre only tests the result against nil.
\<close>

definition CheckPre :: "ports \<Rightarrow> (string \<Rightarrow> bool) \<Rightarrow> string \<Rightarrow> string \<Rightarrow> int" where
  "CheckPre cfg ParseIP network address =
     (if \<not> HasPrefix network ''tcp'' then preProtocolUnknown
      else (case SplitHostPort address of
              Inl err \<Rightarrow> preProtocolUnknown
            | Inr (host, port) \<Rightarrow>
                if \<not> ParseIP host then preProtocolUnknown
                else (case Atoi port of
                        None \<Rightarrow> preProtocolUnknown
                      | Some portInt \<Rightarrow>
                          if in_list portInt (preHttpPorts cfg) then preProtocolHttp
                          else if in_list portInt (preHttpsPorts cfg) then preProtocolHttps
                          else preProtocolUnknown)))"

text \<open>
  A dotted-quad recogniser, used as a sample \<open>ParseIP\<close> when the theorems are run on
  concrete addresses: four non-empty groups of digits separated by dots, each at most 255.
\<close>

fun split_dots :: "string \<Rightarrow> string list" where
  "split_dots [] = [[]]"
| "split_dots (c # cs) =
     (if c = CHR ''.'' then [] # split_dots cs
      else (case split_dots cs of g # gs \<Rightarrow> (c # g) # gs | [] \<Rightarrow> [[c]]))"

definition dotted_quad :: "string \<Rightarrow> bool" where
  "dotted_quad s =
     (let gs = split_dots s in
      length gs = 4 \<and>
      list_all (\<lambda>g. g \<noteq> [] \<and> length g \<le> 3 \<and>
                    (case parse_digits g 0 of None \<Rightarrow> False | Some v \<Rightarrow> v \<le> 255)) gs)"

section \<open>Stream peek and address rewrite: Pre\<close>

text \<open>
  Go errors. handler.go compares errors with \<open>io.EOF\<close> only, so an error value is
  either that sentinel or some other error, known by its message. \<open>Error\<close> is the
  method of the same name, which \<open>%v\<close> prints.
\<close>

datatype error = EOF | errorString string

fun Error :: "error \<Rightarrow> string" where
  "Error EOF = ''EOF''"
| "Error (errorString m) = m"

text \<open>
  The sniffers of package vhost are outside this repository. \<open>vhost.HTTP\<close> and
  \<open>vhost.TLS\<close> take a connection and return the connection that wraps it together with
  an optional error; \<open>Host\<close> reads the host name off a wrapped connection. They are
  passed as a record of functions over an arbitrary connection type. What Pre calls
  is logged, oldest call first.
\<close>

record 'c vhost =
  HTTP :: "'c \<Rightarrow> 'c \<times> error option"
  HTTP_Host :: "'c \<Rightarrow> string"
  TLS :: "'c \<Rightarrow> 'c \<times> error option"
  TLS_Host :: "'c \<Rightarrow> string"

datatype 'c vhost_call =
    CallHTTP 'c
  | CallTLS 'c
  | CallHost 'c
  | CallFree 'c

definition rewrite :: "'c \<Rightarrow> string \<Rightarrow> string \<Rightarrow> string \<Rightarrow> 'c \<times> string \<times> bool" where
  \<comment> \<open>lines 189 to 197 of Pre, after the switch\<close>
  "rewrite conn address tcpPort httpRawHost =
     (if httpRawHost = [] then (conn, address, False)
      else (case SplitHostPort httpRawHost of
              Inl err \<Rightarrow> (conn, JoinHostPort httpRawHost tcpPort, True)
            | Inr (tHost, _) \<Rightarrow> (conn, JoinHostPort tHost tcpPort, True)))"

definition Pre ::
  "'c vhost \<Rightarrow> 'c \<Rightarrow> string \<Rightarrow> int \<Rightarrow> ('c \<times> string \<times> bool) \<times> 'c vhost_call list" where
  "Pre lib conn address preProtoco =
     (case SplitHostPort address of
        Inl err \<Rightarrow> ((conn, address, False), [])
      | Inr (_, tcpPort) \<Rightarrow>
          if preProtoco = preProtocolHttp then
            (case HTTP lib conn of
               (c, Some err) \<Rightarrow> ((c, address, False), [CallHTTP conn])
             | (c, None) \<Rightarrow>
                 (rewrite c address tcpPort (HTTP_Host lib c),
                  [CallHTTP conn, CallHost c, CallFree c]))
          else if preProtoco = preProtocolHttps then
            (case TLS lib conn of
               (c, Some err) \<Rightarrow> ((c, address, False), [CallTLS conn])
             | (c, None) \<Rightarrow>
                 (rewrite c address tcpPort (TLS_Host lib c),
                  [CallTLS conn, CallHost c, CallFree c]))
          else ((conn, address, False), []))"

text \<open>
  A sample sniffer pair for running Pre on concrete inputs: connections are sockets or
  wrappers around a connection, and the sniffers wrap and answer with a fixed error and host.
\<close>

datatype conn = Socket nat | sharedConn conn

definition fixed_vhost :: "error option \<Rightarrow> string \<Rightarrow> conn vhost" where
  "fixed_vhost err host =
     \<lparr>HTTP = (\<lambda>c. (sharedConn c, err)), HTTP_Host = (\<lambda>c. host),
      TLS = (\<lambda>c. (sharedConn c, err)), TLS_Host = (\<lambda>c. host)\<rparr>"

section \<open>One direction of the forwarding engine\<close>

text \<open>
  One call of \<open>_forwardConn\<close> is modelled against a script of what its connections
  will answer: the results of the coming \<open>sConn.Read\<close> calls (the bytes placed in the
  buffer and the error), the results of the coming \<open>oConn.Write\<close> calls (the count and
  the error) and a clock giving the value of the k-th \<open>time.Now()\<close>. Times and durations
  are integers. Every call the task makes is appended to a trace. When a script runs
  out the task is waiting inside that call: it is \<open>Blocked\<close>.
\<close>

type_synonym byte = "8 word"

datatype 'c event =
    SetDeadline 'c int
  | is_ReadEv: ReadEv 'c "byte list" "error option"
  | is_WriteEv: WriteEv 'c "byte list" int "error option"
  | AddUint64 "64 word" "64 word"
  | Send error

record 'c task =
  reads :: "(byte list \<times> error option) list"
  writes :: "(int \<times> error option) list"
  ticks :: nat
  count :: "64 word"
  trace :: "'c event list"

datatype status = Continue | Return error | Blocked | Panic

definition read_error_prefix :: string where
  "read_error_prefix =
     [CHR 0xE8, CHR 0xBD, CHR 0xAC, CHR 0xE5, CHR 0x8F, CHR 0x91, CHR 0xE8, CHR 0xAF, CHR 0xBB,
      CHR 0xE9, CHR 0x94, CHR 0x99, CHR 0xE8, CHR 0xAF, CHR 0xAF, CHR 0xEF, CHR 0xBC, CHR 0x9A]"

definition write_error_prefix :: string where
  "write_error_prefix =
     [CHR 0xE8, CHR 0xBD, CHR 0xAC, CHR 0xE5, CHR 0x8F, CHR 0x91, CHR 0xE5, CHR 0x86, CHR 0x99,
      CHR 0xE9, CHR 0x94, CHR 0x99, CHR 0xE8, CHR 0xAF, CHR 0xAF, CHR 0xEF, CHR 0xBC, CHR 0x9A]"

definition Errorf :: "string \<Rightarrow> error \<Rightarrow> error" where
  \<comment> \<open>\<open>fmt.Errorf(text + "%v", err)\<close>\<close>
  "Errorf text err = errorString (text @ Error err)"

definition emit :: "'c event \<Rightarrow> 'c task \<Rightarrow> 'c task" where
  "emit ev st = st\<lparr>trace := trace st @ [ev]\<rparr>"

definition set_deadlines :: "'c \<Rightarrow> 'c \<Rightarrow> int \<Rightarrow> (nat \<Rightarrow> int) \<Rightarrow> 'c task \<Rightarrow> 'c task" where
  \<comment> \<open>lines 73 and 74: two readings of the clock, both results of SetDeadline dropped\<close>
  "set_deadlines sConn oConn timeout now st =
     (emit (SetDeadline oConn (now (ticks st + 1) + timeout))
       (emit (SetDeadline sConn (now (ticks st) + timeout)) st))\<lparr>ticks := ticks st + 2\<rparr>"

function write_loop :: "'c \<Rightarrow> byte list \<Rightarrow> 'c task \<Rightarrow> status \<times> 'c task" where
  \<comment> \<open>lines 89 to 104; \<open>Continue\<close> is the \<open>break\<close>. \<open>wbuf[n:]\<close> panics when n is
      negative or beyond the length.\<close>
  "write_loop oConn wbuf st =
     (if length wbuf = 0 then (Continue, st)
      else (case writes st of
              [] \<Rightarrow> (Blocked, st)
            | (n, err) # ws \<Rightarrow>
                let st1 = emit (WriteEv oConn wbuf n err) (st\<lparr>writes := ws\<rparr>) in
                (case err of
                   Some e \<Rightarrow>
                     if e = EOF then (Return e, emit (Send e) st1)
                     else (Return (Errorf write_error_prefix e),
                           emit (Send (Errorf write_error_prefix e)) st1)
                 | None \<Rightarrow>
                     if n < 0 \<or> int (length wbuf) < n then (Panic, st1)
                     else write_loop oConn (drop (nat n) wbuf) st1)))"
  by pat_completeness auto
termination
  by (relation "measure (\<lambda>(oConn, wbuf, st). length (writes st))") (auto simp: emit_def)

definition loop_body ::
  "'c \<Rightarrow> 'c \<Rightarrow> int \<Rightarrow> nat \<Rightarrow> (nat \<Rightarrow> int) \<Rightarrow> 'c task \<Rightarrow> status \<times> 'c task" where
  \<comment> \<open>lines 73 to 107, one pass of the outer \<open>for\<close>. The buffer has length and capacity
      \<open>forwardBufSize\<close>, a constant declared elsewhere in the package; \<open>buf[:n]\<close>
      panics when n is beyond the capacity.\<close>
  "loop_body sConn oConn timeout forwardBufSize now st =
     (let st1 = set_deadlines sConn oConn timeout now st in
      case reads st1 of
        [] \<Rightarrow> (Blocked, st1)
      | (buf, err) # rs \<Rightarrow>
          let st2 = emit (ReadEv sConn buf err) (st1\<lparr>reads := rs\<rparr>) in
          (case err of
             Some e \<Rightarrow>
               if e = EOF then (Return e, emit (Send e) st2)
               else (Return (Errorf read_error_prefix e),
                     emit (Send (Errorf read_error_prefix e)) st2)
           | None \<Rightarrow>
               if forwardBufSize < length buf then (Panic, st2)
               else (case write_loop oConn buf st2 of
                       (Continue, st3) \<Rightarrow>
                         (Continue,
                          emit (AddUint64 (of_nat (length buf)) (count st3 + of_nat (length buf)))
                            (st3\<lparr>count := count st3 + of_nat (length buf)\<rparr>))
                     | (r, st3) \<Rightarrow> (r, st3))))"

declare write_loop.simps [simp del]

lemma write_loop_empty: "write_loop oConn [] st = (Continue, st)"
  by (subst write_loop.simps) simp

lemma write_loop_blocked:
  "wbuf \<noteq> [] \<Longrightarrow> writes st = [] \<Longrightarrow> write_loop oConn wbuf st = (Blocked, st)"
  by (subst write_loop.simps) simp

lemma write_loop_error:
  "wbuf \<noteq> [] \<Longrightarrow> writes st = (n, Some e) # ws \<Longrightarrow>
   write_loop oConn wbuf st =
     (Return (if e = EOF then e else Errorf write_error_prefix e),
      emit (Send (if e = EOF then e else Errorf write_error_prefix e))
        (emit (WriteEv oConn wbuf n (Some e)) (st\<lparr>writes := ws\<rparr>)))"
  by (subst write_loop.simps) (simp add: Let_def)

lemma write_loop_panic:
  "wbuf \<noteq> [] \<Longrightarrow> writes st = (n, None) # ws \<Longrightarrow> n < 0 \<or> int (length wbuf) < n \<Longrightarrow>
   write_loop oConn wbuf st = (Panic, emit (WriteEv oConn wbuf n None) (st\<lparr>writes := ws\<rparr>))"
  by (subst write_loop.simps) (simp add: Let_def)

lemma write_loop_step:
  "wbuf \<noteq> [] \<Longrightarrow> writes st = (n, None) # ws \<Longrightarrow> 0 \<le> n \<Longrightarrow> n \<le> int (length wbuf) \<Longrightarrow>
   write_loop oConn wbuf st =
     write_loop oConn (drop (nat n) wbuf) (emit (WriteEv oConn wbuf n None) (st\<lparr>writes := ws\<rparr>))"
  by (subst write_loop.simps) (simp add: Let_def)

lemma write_loop_cases [case_names empty blocked error panic step]:
  assumes "\<And>st. P [] st"
    and "\<And>wbuf st. wbuf \<noteq> [] \<Longrightarrow> writes st = [] \<Longrightarrow> P wbuf st"
    and "\<And>wbuf st n e ws. wbuf \<noteq> [] \<Longrightarrow> writes st = (n, Some e) # ws \<Longrightarrow> P wbuf st"
    and "\<And>wbuf st n ws. wbuf \<noteq> [] \<Longrightarrow> writes st = (n, None) # ws \<Longrightarrow>
           n < 0 \<or> int (length wbuf) < n \<Longrightarrow> P wbuf st"
    and "\<And>wbuf st n ws. wbuf \<noteq> [] \<Longrightarrow> writes st = (n, None) # ws \<Longrightarrow>
           0 \<le> n \<Longrightarrow> n \<le> int (length wbuf) \<Longrightarrow>
           P (drop (nat n) wbuf) (emit (WriteEv oConn wbuf n None) (st\<lparr>writes := ws\<rparr>)) \<Longrightarrow>
           P wbuf st"
  shows "P wbuf (st :: 'c task)"
proof (induction "length (writes st)" arbitrary: wbuf st rule: less_induct)
  case less
  show ?case
  proof (cases "wbuf = []")
    case True
    then show ?thesis using assms(1) by simp
  next
    case False
    show ?thesis
    proof (cases "writes st")
      case Nil
      with False show ?thesis by (rule assms(2))
    next
      case (Cons w ws)
      obtain n err where w: "writes st = (n, err) # ws" using Cons by (cases w) simp
      show ?thesis
      proof (cases err)
        case (Some e)
        with False w show ?thesis using assms(3) by blast
      next
        case None
        show ?thesis
        proof (cases "n < 0 \<or> int (length wbuf) < n")
          case True
          with False w None show ?thesis using assms(4) by blast
        next
          case ok: False
          have "P (drop (nat n) wbuf) (emit (WriteEv oConn wbuf n None) (st\<lparr>writes := ws\<rparr>))"
            by (rule less) (simp add: emit_def w)
          with False w None ok show ?thesis using assms(5) [of wbuf st n ws] by simp
        qed
      qed
    qed
  qed
qed

lemma write_loop_reads: "write_loop oConn wbuf st = (r, st') \<Longrightarrow> reads st' = reads st"
proof (induction wbuf st rule: write_loop_cases [where oConn = oConn])
  case (empty st)
  then show ?case by (simp add: write_loop_empty)
next
  case (blocked wbuf st)
  then show ?case by (simp add: write_loop_blocked)
next
  case (error wbuf st n e ws)
  then show ?case by (auto simp: write_loop_error emit_def)
next
  case (panic wbuf st n ws)
  then show ?case by (auto simp: write_loop_panic emit_def)
next
  case (step wbuf st n ws)
  then show ?case by (simp add: write_loop_step emit_def)
qed

lemma loop_body_reads:
  assumes "loop_body sConn oConn timeout forwardBufSize now st = (Continue, st')"
  shows "length (reads st') < length (reads st)"
proof -
  let ?st1 = "set_deadlines sConn oConn timeout now st"
  have r1: "reads ?st1 = reads st" by (simp add: set_deadlines_def emit_def)
  show ?thesis
  proof (cases "reads st")
    case Nil
    with assms r1 show ?thesis by (simp add: loop_body_def Let_def)
  next
    case (Cons x rs)
    obtain buf err where x: "x = (buf, err)" by (cases x)
    let ?st2 = "emit (ReadEv sConn buf err) (?st1\<lparr>reads := rs\<rparr>)"
    have r2: "reads ?st2 = rs" by (simp add: emit_def)
    show ?thesis
    proof (cases err)
      case (Some e)
      with assms r1 Cons x show ?thesis
        by (auto simp: loop_body_def Let_def split: if_splits)
    next
      case None
      show ?thesis
      proof (cases "forwardBufSize < length buf")
        case True
        with assms r1 Cons x None show ?thesis by (simp add: loop_body_def Let_def)
      next
        case False
        obtain r st3 where w: "write_loop oConn buf ?st2 = (r, st3)"
          by (cases "write_loop oConn buf ?st2")
        from write_loop_reads [OF w] r2 have r3: "reads st3 = rs" by simp
        from assms r1 Cons x None False w have "r = Continue"
          by (cases r) (simp_all add: loop_body_def Let_def)
        with assms r1 Cons x None False w
        have "st' = emit (AddUint64 (of_nat (length buf)) (count st3 + of_nat (length buf)))
                      (st3\<lparr>count := count st3 + of_nat (length buf)\<rparr>)"
          by (simp add: loop_body_def Let_def)
        then have "reads st' = rs" using r3 by (simp add: emit_def)
        with Cons show ?thesis by simp
      qed
    qed
  qed
qed

function forwardConn_dir ::
  "'c \<Rightarrow> 'c \<Rightarrow> int \<Rightarrow> nat \<Rightarrow> (nat \<Rightarrow> int) \<Rightarrow> 'c task \<Rightarrow> status \<times> 'c task" where
  \<comment> \<open>\<open>_forwardConn\<close>: the outer \<open>for\<close>, repeated until a pass returns, panics or waits\<close>
  "forwardConn_dir sConn oConn timeout forwardBufSize now st =
     (case loop_body sConn oConn timeout forwardBufSize now st of
        (Continue, st') \<Rightarrow> forwardConn_dir sConn oConn timeout forwardBufSize now st'
      | (r, st') \<Rightarrow> (r, st'))"
  by pat_completeness auto
termination
  by (relation "measure (\<lambda>(sConn, oConn, timeout, forwardBufSize, now, st). length (reads st))")
     (auto dest: loop_body_reads [OF sym])

declare forwardConn_dir.simps [simp del]

subsection \<open>Reading a trace\<close>

text \<open>
  \<open>written\<close> is the byte stream the destination accepted: of each \<open>Write\<close> call, the
  first n bytes of the buffer it was given, n being the count the call returned.
  \<open>counter_values\<close> lists the values the counter took, oldest first (each
  \<open>atomic.AddUint64\<close> returns the new value).
\<close>

fun written :: "'c event list \<Rightarrow> byte list" where
  "written [] = []"
| "written (WriteEv c wbuf n err # evs) = take (nat n) wbuf @ written evs"
| "written (ev # evs) = written evs"

fun counter_values :: "'c event list \<Rightarrow> 64 word list" where
  "counter_values [] = []"
| "counter_values (AddUint64 d v # evs) = v # counter_values evs"
| "counter_values (ev # evs) = counter_values evs"

fun write_results :: "'c event list \<Rightarrow> (int \<times> error option) list" where
  \<comment> \<open>what the \<open>Write\<close> calls of a trace returned, oldest first\<close>
  "write_results [] = []"
| "write_results (WriteEv c wbuf n err # evs) = (n, err) # write_results evs"
| "write_results (ev # evs) = write_results evs"

definition failed_write :: "'c event \<Rightarrow> bool" where
  "failed_write ev = (case ev of WriteEv c wbuf n (Some err) \<Rightarrow> True | _ \<Rightarrow> False)"

definition report :: "string \<Rightarrow> error \<Rightarrow> error" where
  \<comment> \<open>what both error branches put on the channel: \<open>io.EOF\<close> as it is, any other
      error wrapped with the branch's prefix\<close>
  "report text err = (if err = EOF then err else Errorf text err)"

section \<open>The two directions together: forwardConn\<close>

text \<open>
  \<open>forwardConn\<close> makes a channel of capacity 10, starts one \<open>_forwardConn\<close> per
  direction and receives once from the channel. Each goroutine touches the channel in
  one place, the send that precedes its return, so for the channel a goroutine is either
  still running, with the event it will send when its loop ends if it ever ends, or
  finished. A session is the channel's buffer, the two goroutines and the caller; its
  steps are the two sends, possible while the buffer has room, and the receive, possible
  once the buffer is not empty. They interleave in any order. \<open>sent\<close> records every
  event sent, oldest first.
\<close>

datatype worker = Running "error option" | Finished

datatype caller = Receiving | Returned error

record session =
  errChan :: "error list"
  send_task :: worker
  recv_task :: worker
  caller :: caller
  sent :: "error list"

definition errChan_cap :: nat where
  \<comment> \<open>\<open>make(chan error, 10)\<close>\<close>
  "errChan_cap = 10"

definition terminal :: "status \<Rightarrow> error option" where
  \<comment> \<open>the event a run of one direction sends, if it sends one\<close>
  "terminal r = (case r of Return e \<Rightarrow> Some e | _ \<Rightarrow> None)"

definition session_start :: "error option \<Rightarrow> error option \<Rightarrow> session" where
  \<comment> \<open>the session after lines 62 to 65, before the receive of line 67\<close>
  "session_start a b =
     \<lparr>errChan = [], send_task = Running a, recv_task = Running b, caller = Receiving, sent = []\<rparr>"

definition forwardConn ::
  "'c \<Rightarrow> 'c \<Rightarrow> int \<Rightarrow> nat \<Rightarrow> (nat \<Rightarrow> int) \<Rightarrow> 'c task \<Rightarrow> 'c task \<Rightarrow> session" where
  \<comment> \<open>the two \<open>go\<close> statements: the second direction runs with the connections swapped;
      each direction has its own scripts and its own counter\<close>
  "forwardConn sConn oConn timeout forwardBufSize now send_st recv_st =
     session_start
       (terminal (fst (forwardConn_dir sConn oConn timeout forwardBufSize now send_st)))
       (terminal (fst (forwardConn_dir oConn sConn timeout forwardBufSize now recv_st)))"

inductive step :: "session \<Rightarrow> session \<Rightarrow> bool" where
  send_reports:
    "send_task s = Running (Some e) \<Longrightarrow> length (errChan s) < errChan_cap \<Longrightarrow>
     step s (s\<lparr>errChan := errChan s @ [e], send_task := Finished, sent := sent s @ [e]\<rparr>)"
| recv_reports:
    "recv_task s = Running (Some e) \<Longrightarrow> length (errChan s) < errChan_cap \<Longrightarrow>
     step s (s\<lparr>errChan := errChan s @ [e], recv_task := Finished, sent := sent s @ [e]\<rparr>)"
| receive:
    "caller s = Receiving \<Longrightarrow> errChan s = e # q \<Longrightarrow>
     step s (s\<lparr>errChan := q, caller := Returned e\<rparr>)"

code_pred step .

definition pending :: "session \<Rightarrow> nat" where
  \<comment> \<open>the channel operations still to come: the sends of the goroutines that will
      report and have not yet, and the caller's receive\<close>
  "pending s =
     (case send_task s of Running (Some e) \<Rightarrow> 1 | _ \<Rightarrow> 0) +
     (case recv_task s of Running (Some e) \<Rightarrow> 1 | _ \<Rightarrow> 0) +
     (case caller s of Receiving \<Rightarrow> 1 | Returned e \<Rightarrow> 0)"

definition session_inv :: "error option \<Rightarrow> error option \<Rightarrow> session \<Rightarrow> bool" where
  "session_inv a b s =
     ((send_task s = Running a \<or> send_task s = Finished \<and> (\<exists>e. a = Some e \<and> e \<in> set (sent s))) \<and>
      (recv_task s = Running b \<or> recv_task s = Finished \<and> (\<exists>e. b = Some e \<and> e \<in> set (sent s))) \<and>
      length (sent s) =
        (if send_task s = Finished then 1 else 0) + (if recv_task s = Finished then 1 else 0) \<and>
      set (sent s) \<subseteq> set_option a \<union> set_option b \<and>
      (case caller s of
         Receiving \<Rightarrow> errChan s = sent s
       | Returned e \<Rightarrow> sent s = e # errChan s))"

section \<open>Splitting and joining addresses\<close>

lemma IndexByteString_None: "IndexByteString s c = None \<longleftrightarrow> c \<notin> set s"
  by (induction s) auto

lemma IndexByteString_Some:
  "IndexByteString s c = Some i \<Longrightarrow> i < length s \<and> s ! i = c \<and> c \<notin> set (take i s)"
proof (induction s arbitrary: i)
  case Nil
  then show ?case by simp
next
  case (Cons x xs)
  show ?case
  proof (cases "x = c")
    case True
    with Cons.prems show ?thesis by simp
  next
    case False
    with Cons.prems obtain j where j: "IndexByteString xs c = Some j" and i: "i = Suc j"
      by auto
    from Cons.IH [OF j] False i show ?thesis by simp
  qed
qed

lemma IndexByteString_first:
  "c \<notin> set h \<Longrightarrow> IndexByteString (h @ c # r) c = Some (length h)"
  by (induction h) auto

lemma last_index_None: "last_index s c = None \<longleftrightarrow> c \<notin> set s"
  by (induction s) (auto split: option.splits)

lemma last_index_Some:
  "last_index s c = Some i \<Longrightarrow> i < length s \<and> s ! i = c \<and> c \<notin> set (drop (Suc i) s)"
proof (induction s arbitrary: i)
  case Nil
  then show ?case by simp
next
  case (Cons x xs)
  show ?case
  proof (cases "last_index xs c")
    case None
    with Cons.prems have "x = c" "i = 0" by (auto split: if_splits)
    with None show ?thesis by (simp add: last_index_None)
  next
    case (Some j)
    with Cons.prems have "i = Suc j" by simp
    with Cons.IH [OF Some] show ?thesis by simp
  qed
qed

lemma last_index_last:
  "c \<notin> set p \<Longrightarrow> last_index (h @ c # p) c = Some (length h)"
proof (induction h)
  case Nil
  then show ?case using last_index_None [of p c] by simp
next
  case (Cons x h)
  then show ?case by simp
qed

lemma SplitHostPort_parts:
  assumes "SplitHostPort a = Inr (h, p)"
  shows "CHR '':'' \<notin> set p \<and> CHR ''['' \<notin> set p \<and> CHR '']'' \<notin> set p \<and>
         CHR ''['' \<notin> set h \<and> CHR '']'' \<notin> set h"
proof -
  from assms obtain i where i: "last_index a CHR '':'' = Some i"
    by (auto simp: SplitHostPort_def split: option.splits)
  from last_index_Some [OF i] have colon: "CHR '':'' \<notin> set (drop (Suc i) a)" by simp
  show ?thesis
  proof (cases "take 1 a = ''[''")
    case True
    with assms i obtain e where e: "IndexByteString a CHR '']'' = Some e"
      by (auto simp: SplitHostPort_def split: option.splits)
    from assms i True e have ei: "e + 1 = i"
      and h: "h = take (e - 1) (drop 1 a)" and p: "p = drop (i + 1) a"
      and lb: "IndexByteString (drop 1 a) CHR ''['' = None"
      and rb: "IndexByteString (drop (e + 1) a) CHR '']'' = None"
      by (auto simp: SplitHostPort_def Let_def split: if_splits)
    from lb have lb': "CHR ''['' \<notin> set (drop 1 a)" by (simp add: IndexByteString_None)
    from rb have rb': "CHR '']'' \<notin> set (drop (e + 1) a)" by (simp add: IndexByteString_None)
    from IndexByteString_Some [OF e] have first: "CHR '']'' \<notin> set (take e a)" by simp
    have "set h \<subseteq> set (drop 1 a)" unfolding h by (rule set_take_subset)
    with lb' have 1: "CHR ''['' \<notin> set h" by blast
    have "set p \<subseteq> set (drop 1 a)" unfolding p by (metis set_drop_subset_set_drop le_add2 add.commute)
    with lb' have 2: "CHR ''['' \<notin> set p" by blast
    have "set p \<subseteq> set (drop (e + 1) a)" unfolding p
      by (rule set_drop_subset_set_drop) (use ei in simp)
    with rb' have 3: "CHR '']'' \<notin> set p" by blast
    have "h = drop 1 (take e a)" unfolding h by (simp add: drop_take)
    then have "set h \<subseteq> set (take e a)" by (simp add: set_drop_subset)
    with first have 4: "CHR '']'' \<notin> set h" by blast
    from colon p have 5: "CHR '':'' \<notin> set p" by simp
    from 1 2 3 4 5 show ?thesis by blast
  next
    case False
    with assms i have h: "h = take i a" and p: "p = drop (i + 1) a"
      and lb: "IndexByteString a CHR ''['' = None"
      and rb: "IndexByteString a CHR '']'' = None"
      by (auto simp: SplitHostPort_def Let_def split: if_splits)
    from lb rb have "CHR ''['' \<notin> set a" "CHR '']'' \<notin> set a"
      by (simp_all add: IndexByteString_None)
    moreover have "set h \<subseteq> set a" "set p \<subseteq> set a"
      unfolding h p by (rule set_take_subset, rule set_drop_subset)
    ultimately show ?thesis using colon p by auto
  qed
qed

lemma SplitHostPort_JoinHostPort:
  assumes "CHR '':'' \<notin> set p" "CHR ''['' \<notin> set p" "CHR '']'' \<notin> set p"
    and "CHR ''['' \<notin> set h" "CHR '']'' \<notin> set h"
  shows "SplitHostPort (JoinHostPort h p) = Inr (h, p)"
proof (cases "CHR '':'' \<in> set h")
  case True
  let ?a = "''['' @ h @ '']:'' @ p"
  have j: "JoinHostPort h p = ?a" using True by (simp add: JoinHostPort_def IndexByteString_None)
  have "?a = (''['' @ h @ '']'') @ CHR '':'' # p" by simp
  then have "last_index ?a CHR '':'' = Some (length (''['' @ h @ '']''))"
    using last_index_last [OF assms(1)] by metis
  then have i: "last_index ?a CHR '':'' = Some (length h + 2)" by simp
  have "?a = (''['' @ h) @ CHR '']'' # ('':'' @ p)" by simp
  moreover have "CHR '']'' \<notin> set (''['' @ h)" using assms(5) by simp
  ultimately have "IndexByteString ?a CHR '']'' = Some (length (''['' @ h))"
    using IndexByteString_first by metis
  then have e: "IndexByteString ?a CHR '']'' = Some (length h + 1)" by simp
  have lb: "IndexByteString (drop 1 ?a) CHR ''['' = None"
    using assms(2,4) by (simp add: IndexByteString_None)
  have rb: "IndexByteString (drop (length h + 2) ?a) CHR '']'' = None"
    using assms(3) by (simp add: IndexByteString_None)
  have "drop (length xs) (xs @ p) = p" for xs :: string by simp
  from this [of "''['' @ h @ '']:''"] have port: "drop (length h + 3) ?a = p"
    by (simp add: numeral_3_eq_3)
  have host: "take (length h) (drop 1 ?a) = h" by simp
  show ?thesis
    unfolding j SplitHostPort_def i e
    using lb rb port host by (simp add: Let_def)
next
  case False
  let ?a = "h @ '':'' @ p"
  have j: "JoinHostPort h p = ?a" using False by (simp add: JoinHostPort_def IndexByteString_None)
  have i: "last_index ?a CHR '':'' = Some (length h)"
    using last_index_last [OF assms(1), of h] by simp
  have nb: "take 1 ?a \<noteq> ''[''" using assms(4) by (cases h) auto
  have nc: "IndexByteString (take (length h) ?a) CHR '':'' = None"
    using False by (simp add: IndexByteString_None)
  have lb: "IndexByteString ?a CHR ''['' = None"
    using assms(2,4) by (simp add: IndexByteString_None)
  have rb: "IndexByteString ?a CHR '']'' = None"
    using assms(3,5) by (simp add: IndexByteString_None)
  show ?thesis
    unfolding j SplitHostPort_def i
    using nb nc lb rb by (simp add: Let_def)
qed

text \<open>
  What a successful Pre returns: the join of a host with the port of the address it was
  given. When the sniffed host name itself splits into host and port, its port is
  dropped, and the result splits again into that host and the original port. When it
  does not split it is joined as it is, and the result splits again provided the name
  holds no square bracket.
\<close>

lemma rewrite_conn: "rewrite c address tcpPort raw = (c', a', ok) \<Longrightarrow> c = c'"
  by (auto simp: rewrite_def split: if_splits sum.splits)

lemma Pre_rejoins_port:
  assumes "Pre lib conn address preProtoco = ((nConn, nAddress, True), calls)"
  shows "\<exists>h0 tcpPort raw.
           SplitHostPort address = Inr (h0, tcpPort) \<and> raw \<noteq> [] \<and>
           (raw = HTTP_Host lib nConn \<or> raw = TLS_Host lib nConn) \<and>
           (case SplitHostPort raw of
              Inr (tHost, p') \<Rightarrow>
                nAddress = JoinHostPort tHost tcpPort \<and>
                SplitHostPort nAddress = Inr (tHost, tcpPort)
            | Inl err \<Rightarrow>
                nAddress = JoinHostPort raw tcpPort \<and>
                (CHR ''['' \<notin> set raw \<and> CHR '']'' \<notin> set raw \<longrightarrow>
                   SplitHostPort nAddress = Inr (raw, tcpPort)))"
proof -
  from assms obtain h0 tcpPort where sp: "SplitHostPort address = Inr (h0, tcpPort)"
    by (cases "SplitHostPort address") (auto simp: Pre_def)
  from SplitHostPort_parts [OF sp]
  have port: "CHR '':'' \<notin> set tcpPort" "CHR ''['' \<notin> set tcpPort" "CHR '']'' \<notin> set tcpPort"
    by simp_all
  from assms sp consider
      (http) c where "rewrite c address tcpPort (HTTP_Host lib c) = (nConn, nAddress, True)"
    | (tls) c where "rewrite c address tcpPort (TLS_Host lib c) = (nConn, nAddress, True)"
    by (auto simp: Pre_def split: if_splits prod.splits option.splits)
  then obtain c raw where raw0: "raw = HTTP_Host lib c \<or> raw = TLS_Host lib c"
    and rw0: "rewrite c address tcpPort raw = (nConn, nAddress, True)"
    by cases blast+
  from rw0 have "c = nConn" by (rule rewrite_conn)
  with raw0 rw0 have raw: "raw = HTTP_Host lib nConn \<or> raw = TLS_Host lib nConn"
    and rw: "rewrite nConn address tcpPort raw = (nConn, nAddress, True)"
    by simp_all
  from rw have ne: "raw \<noteq> []" by (auto simp: rewrite_def)
  have "case SplitHostPort raw of
              Inr (tHost, p') \<Rightarrow>
                nAddress = JoinHostPort tHost tcpPort \<and>
                SplitHostPort nAddress = Inr (tHost, tcpPort)
            | Inl err \<Rightarrow>
                nAddress = JoinHostPort raw tcpPort \<and>
                (CHR ''['' \<notin> set raw \<and> CHR '']'' \<notin> set raw \<longrightarrow>
                   SplitHostPort nAddress = Inr (raw, tcpPort))"
  proof (cases "SplitHostPort raw")
    case (Inl err)
    with rw ne have "nAddress = JoinHostPort raw tcpPort" by (simp add: rewrite_def)
    with Inl port show ?thesis by (simp add: SplitHostPort_JoinHostPort)
  next
    case (Inr hp)
    obtain tHost p' where hp: "hp = (tHost, p')" by (cases hp)
    with rw ne Inr have a: "nAddress = JoinHostPort tHost tcpPort" by (simp add: rewrite_def)
    from SplitHostPort_parts [OF Inr [unfolded hp]]
    have "CHR ''['' \<notin> set tHost" "CHR '']'' \<notin> set tHost" by simp_all
    with port have "SplitHostPort (JoinHostPort tHost tcpPort) = Inr (tHost, tcpPort)"
      by (simp add: SplitHostPort_JoinHostPort)
    with a Inr hp show ?thesis by simp
  qed
  with sp ne raw show ?thesis by blast
qed

section \<open>The shape of a run\<close>

lemma written_append: "written (xs @ ys) = written xs @ written ys"
  by (induction xs rule: written.induct) auto

lemma write_loop_shape:
  assumes "write_loop oConn wbuf st = (r, st')"
  shows "\<exists>wevs tl. trace st' = trace st @ wevs @ tl
        \<and> (\<forall>ev\<in>set wevs. \<exists>w n e. ev = WriteEv oConn w n e)
        \<and> prefix (written wevs) wbuf
        \<and> count st' = count st \<and> ticks st' = ticks st
        \<and> (case r of
              Continue \<Rightarrow> tl = [] \<and> written wevs = wbuf \<and> \<not> list_ex failed_write wevs
            | Return e \<Rightarrow> tl = [Send e] \<and> wevs \<noteq> [] \<and>
                (\<exists>w n err. last wevs = WriteEv oConn w n (Some err) \<and>
                   e = report write_error_prefix err)
            | Blocked \<Rightarrow> tl = [] \<and> writes st' = [] \<and> \<not> list_ex failed_write wevs
            | Panic \<Rightarrow> tl = [] \<and> \<not> list_ex failed_write wevs)"
  using assms
proof (induction wbuf st rule: write_loop_cases [where oConn = oConn])
  case (empty st)
  then have "r = Continue" "st' = st" by (simp_all add: write_loop_empty)
  then show ?case by (intro exI [of _ "[]"]) simp
next
  case (blocked wbuf st)
  then have "r = Blocked" "st' = st" by (simp_all add: write_loop_blocked)
  with blocked show ?case by (intro exI [of _ "[]"]) simp
next
  case (error wbuf st n e ws)
  then have r: "r = Return (report write_error_prefix e)"
    and st': "st' = emit (Send (report write_error_prefix e))
        (emit (WriteEv oConn wbuf n (Some e)) (st\<lparr>writes := ws\<rparr>))"
    by (simp_all add: write_loop_error report_def)
  show ?case
    apply (rule exI [of _ "[WriteEv oConn wbuf n (Some e)]"])
    apply (rule exI [of _ "[Send (report write_error_prefix e)]"])
    apply (simp add: r st' emit_def take_is_prefix)
    done
next
  case (panic wbuf st n ws)
  then have r: "r = Panic"
    and st': "st' = emit (WriteEv oConn wbuf n None) (st\<lparr>writes := ws\<rparr>)"
    by (simp_all add: write_loop_panic)
  show ?case
    apply (rule exI [of _ "[WriteEv oConn wbuf n None]"])
    apply (rule exI [of _ "[]"])
    apply (simp add: r st' emit_def take_is_prefix failed_write_def)
    done
next
  case (step wbuf st n ws)
  let ?st1 = "emit (WriteEv oConn wbuf n None) (st\<lparr>writes := ws\<rparr>)"
  from step have "write_loop oConn (drop (nat n) wbuf) ?st1 = (r, st')"
    by (simp add: write_loop_step)
  from step.IH [OF this] obtain wevs tl where
    t: "trace st' = trace ?st1 @ wevs @ tl"
    and w: "\<forall>ev\<in>set wevs. \<exists>w n e. ev = WriteEv oConn w n e"
    and p: "prefix (written wevs) (drop (nat n) wbuf)"
    and c: "count st' = count ?st1" "ticks st' = ticks ?st1"
    and k: "(case r of
              Continue \<Rightarrow> tl = [] \<and> written wevs = drop (nat n) wbuf \<and> \<not> list_ex failed_write wevs
            | Return e \<Rightarrow> tl = [Send e] \<and> wevs \<noteq> [] \<and>
                (\<exists>w n err. last wevs = WriteEv oConn w n (Some err) \<and>
                   e = report write_error_prefix err)
            | Blocked \<Rightarrow> tl = [] \<and> writes st' = [] \<and> \<not> list_ex failed_write wevs
            | Panic \<Rightarrow> tl = [] \<and> \<not> list_ex failed_write wevs)"
    by blast
  let ?wevs = "WriteEv oConn wbuf n None # wevs"
  have t': "trace st' = trace st @ ?wevs @ tl" using t by (simp add: emit_def)
  have w': "\<forall>ev\<in>set ?wevs. \<exists>w n e. ev = WriteEv oConn w n e" using w by simp
  have "prefix (take (nat n) wbuf @ written wevs) (take (nat n) wbuf @ drop (nat n) wbuf)"
    by (subst same_prefix_prefix) (rule p)
  then have p': "prefix (written ?wevs) wbuf" by simp
  have c': "count st' = count st" "ticks st' = ticks st" using c by (simp_all add: emit_def)
  have k': "(case r of
              Continue \<Rightarrow> tl = [] \<and> written ?wevs = wbuf \<and> \<not> list_ex failed_write ?wevs
            | Return e \<Rightarrow> tl = [Send e] \<and> ?wevs \<noteq> [] \<and>
                (\<exists>w n err. last ?wevs = WriteEv oConn w n (Some err) \<and>
                   e = report write_error_prefix err)
            | Blocked \<Rightarrow> tl = [] \<and> writes st' = [] \<and> \<not> list_ex failed_write ?wevs
            | Panic \<Rightarrow> tl = [] \<and> \<not> list_ex failed_write ?wevs)"
    using k by (cases r) (auto simp: failed_write_def)
  from t' w' p' c' k' show ?case by blast
qed

lemma write_loop_run:
  assumes "write_loop oConn wbuf st = (r, st')"
  shows "\<exists>wevs tl. trace st' = trace st @ wevs @ tl
     \<and> (\<forall>ev\<in>set wevs. \<exists>w n e. ev = WriteEv oConn w n e)
     \<and> writes st = write_results wevs @ writes st'
     \<and> (\<forall>pre w n e post. wevs = pre @ WriteEv oConn w n e # post \<longrightarrow>
           w = drop (length (written pre)) wbuf \<and> w \<noteq> [] \<and>
           (post \<noteq> [] \<or> r = Continue \<or> r = Blocked \<longrightarrow> e = None \<and> 0 \<le> n \<and> n \<le> int (length w)))
     \<and> prefix (written wevs) wbuf
     \<and> count st' = count st \<and> ticks st' = ticks st \<and> reads st' = reads st
     \<and> (case r of
          Continue \<Rightarrow> tl = [] \<and> written wevs = wbuf \<and> \<not> list_ex failed_write wevs
        | Return e \<Rightarrow> tl = [Send e] \<and> wevs \<noteq> [] \<and>
            (\<exists>w n err. last wevs = WriteEv oConn w n (Some err) \<and>
               e = report write_error_prefix err)
        | Blocked \<Rightarrow> tl = [] \<and> writes st' = [] \<and> written wevs \<noteq> wbuf \<and>
            \<not> list_ex failed_write wevs
        | Panic \<Rightarrow> tl = [] \<and> wevs \<noteq> [] \<and>
            (\<exists>w n. last wevs = WriteEv oConn w n None \<and> (n < 0 \<or> int (length w) < n)))"
  using assms
proof (induction wbuf st rule: write_loop_cases [where oConn = oConn])
  case (empty st)
  then have "r = Continue" "st' = st" by (simp_all add: write_loop_empty)
  then show ?case by (intro exI [of _ "[]"]) simp
next
  case (blocked wbuf st)
  then have "r = Blocked" "st' = st" by (simp_all add: write_loop_blocked)
  with blocked show ?case by (intro exI [of _ "[]"]) simp
next
  case (error wbuf st n e ws)
  then have r: "r = Return (report write_error_prefix e)"
    and st': "st' = emit (Send (report write_error_prefix e))
        (emit (WriteEv oConn wbuf n (Some e)) (st\<lparr>writes := ws\<rparr>))"
    by (simp_all add: write_loop_error report_def)
  show ?case
    apply (rule exI [of _ "[WriteEv oConn wbuf n (Some e)]"])
    apply (rule exI [of _ "[Send (report write_error_prefix e)]"])
    using error(1,2)
    apply (simp add: r st' emit_def Cons_eq_append_conv take_is_prefix)
    done
next
  case (panic wbuf st n ws)
  then have r: "r = Panic"
    and st': "st' = emit (WriteEv oConn wbuf n None) (st\<lparr>writes := ws\<rparr>)"
    by (simp_all add: write_loop_panic)
  show ?case
    apply (rule exI [of _ "[WriteEv oConn wbuf n None]"])
    apply (rule exI [of _ "[]"])
    using panic(1,2,3)
    apply (simp add: r st' emit_def Cons_eq_append_conv take_is_prefix)
    done
next
  case (step wbuf st n ws)
  let ?st1 = "emit (WriteEv oConn wbuf n None) (st\<lparr>writes := ws\<rparr>)"
  let ?rest = "drop (nat n) wbuf"
  from step have run: "write_loop oConn ?rest ?st1 = (r, st')"
    by (simp add: write_loop_step)
  from step.IH [OF run] obtain wevs tl where
    t: "trace st' = trace ?st1 @ wevs @ tl"
    and w: "\<forall>ev\<in>set wevs. \<exists>w n e. ev = WriteEv oConn w n e"
    and s: "writes ?st1 = write_results wevs @ writes st'"
    and a: "\<forall>pre w m e post. wevs = pre @ WriteEv oConn w m e # post \<longrightarrow>
           w = drop (length (written pre)) ?rest \<and> w \<noteq> [] \<and>
           (post \<noteq> [] \<or> r = Continue \<or> r = Blocked \<longrightarrow> e = None \<and> 0 \<le> m \<and> m \<le> int (length w))"
    and p: "prefix (written wevs) ?rest"
    and c: "count st' = count ?st1" "ticks st' = ticks ?st1" "reads st' = reads ?st1"
    and k: "(case r of
          Continue \<Rightarrow> tl = [] \<and> written wevs = ?rest \<and> \<not> list_ex failed_write wevs
        | Return e \<Rightarrow> tl = [Send e] \<and> wevs \<noteq> [] \<and>
            (\<exists>w n err. last wevs = WriteEv oConn w n (Some err) \<and>
               e = report write_error_prefix err)
        | Blocked \<Rightarrow> tl = [] \<and> writes st' = [] \<and> written wevs \<noteq> ?rest \<and>
            \<not> list_ex failed_write wevs
        | Panic \<Rightarrow> tl = [] \<and> wevs \<noteq> [] \<and>
            (\<exists>w n. last wevs = WriteEv oConn w n None \<and> (n < 0 \<or> int (length w) < n)))"
    by blast
  let ?wevs = "WriteEv oConn wbuf n None # wevs"
  have len: "length (take (nat n) wbuf) = nat n" using step(3,4) by simp
  have t': "trace st' = trace st @ ?wevs @ tl" using t by (simp add: emit_def)
  have w': "\<forall>ev\<in>set ?wevs. \<exists>w n e. ev = WriteEv oConn w n e" using w by simp
  have s': "writes st = write_results ?wevs @ writes st'"
    using s step(2) by (simp add: emit_def)
  have a': "\<forall>pre w m e post. ?wevs = pre @ WriteEv oConn w m e # post \<longrightarrow>
           w = drop (length (written pre)) wbuf \<and> w \<noteq> [] \<and>
           (post \<noteq> [] \<or> r = Continue \<or> r = Blocked \<longrightarrow> e = None \<and> 0 \<le> m \<and> m \<le> int (length w))"
  proof (intro allI impI)
    fix pre w m e post
    assume eq: "?wevs = pre @ WriteEv oConn w m e # post"
    show "w = drop (length (written pre)) wbuf \<and> w \<noteq> [] \<and>
           (post \<noteq> [] \<or> r = Continue \<or> r = Blocked \<longrightarrow> e = None \<and> 0 \<le> m \<and> m \<le> int (length w))"
    proof (cases pre)
      case Nil
      with eq have "w = wbuf" "m = n" "e = None" by simp_all
      with Nil step(1,3,4) show ?thesis by simp
    next
      case (Cons x pre')
      with eq have x: "x = WriteEv oConn wbuf n None"
        and eq': "wevs = pre' @ WriteEv oConn w m e # post"
        by simp_all
      from a eq' have 1: "w = drop (length (written pre')) ?rest" and 2: "w \<noteq> []"
        and 3: "post \<noteq> [] \<or> r = Continue \<or> r = Blocked \<longrightarrow> e = None \<and> 0 \<le> m \<and> m \<le> int (length w)"
        by blast+
      have "length (written pre) = nat n + length (written pre')"
        unfolding Cons x using len by simp
      with 1 have "w = drop (length (written pre)) wbuf" by (simp add: add.commute)
      with 2 3 show ?thesis by blast
    qed
  qed
  have split: "take (nat n) wbuf @ ?rest = wbuf" by simp
  have "prefix (take (nat n) wbuf @ written wevs) (take (nat n) wbuf @ ?rest)"
    by (subst same_prefix_prefix) (rule p)
  then have p': "prefix (written ?wevs) wbuf" by simp
  have c': "count st' = count st" "ticks st' = ticks st" "reads st' = reads st"
    using c by (simp_all add: emit_def)
  have nf: "\<not> failed_write (WriteEv oConn wbuf n None)" by (simp add: failed_write_def)
  have k': "(case r of
          Continue \<Rightarrow> tl = [] \<and> written ?wevs = wbuf \<and> \<not> list_ex failed_write ?wevs
        | Return e \<Rightarrow> tl = [Send e] \<and> ?wevs \<noteq> [] \<and>
            (\<exists>w n err. last ?wevs = WriteEv oConn w n (Some err) \<and>
               e = report write_error_prefix err)
        | Blocked \<Rightarrow> tl = [] \<and> writes st' = [] \<and> written ?wevs \<noteq> wbuf \<and>
            \<not> list_ex failed_write ?wevs
        | Panic \<Rightarrow> tl = [] \<and> ?wevs \<noteq> [] \<and>
            (\<exists>w n. last ?wevs = WriteEv oConn w n None \<and> (n < 0 \<or> int (length w) < n)))"
  proof (cases r)
    case Continue
    with k nf show ?thesis by simp
  next
    case (Return e)
    with k show ?thesis by auto
  next
    case Blocked
    with k have "written wevs \<noteq> ?rest" by simp
    with split have "take (nat n) wbuf @ written wevs \<noteq> wbuf"
      by (metis same_append_eq)
    then have "written ?wevs \<noteq> wbuf" by simp
    with Blocked k nf show ?thesis by simp
  next
    case Panic
    with k show ?thesis by auto
  qed
  from t' w' s' a' p' c' k' show ?case by blast
qed

lemma loop_body_elims [consumes 1, case_names blocked read_error panic flushed stopped]:
  assumes "loop_body sConn oConn timeout forwardBufSize now st = (r, st')"
  obtains
    (blocked) "reads st = []" "r = Blocked" "st' = set_deadlines sConn oConn timeout now st"
  | (read_error) buf e rs where "reads st = (buf, Some e) # rs"
      "r = Return (report read_error_prefix e)"
      "st' = emit (Send (report read_error_prefix e))
               (emit (ReadEv sConn buf (Some e))
                 ((set_deadlines sConn oConn timeout now st)\<lparr>reads := rs\<rparr>))"
  | (panic) buf rs where "reads st = (buf, None) # rs" "forwardBufSize < length buf"
      "r = Panic"
      "st' = emit (ReadEv sConn buf None)
               ((set_deadlines sConn oConn timeout now st)\<lparr>reads := rs\<rparr>)"
  | (flushed) buf rs st3 where "reads st = (buf, None) # rs" "length buf \<le> forwardBufSize"
      "write_loop oConn buf (emit (ReadEv sConn buf None)
               ((set_deadlines sConn oConn timeout now st)\<lparr>reads := rs\<rparr>)) = (Continue, st3)"
      "r = Continue"
      "st' = emit (AddUint64 (of_nat (length buf)) (count st3 + of_nat (length buf)))
               (st3\<lparr>count := count st3 + of_nat (length buf)\<rparr>)"
  | (stopped) buf rs where "reads st = (buf, None) # rs" "length buf \<le> forwardBufSize"
      "write_loop oConn buf (emit (ReadEv sConn buf None)
               ((set_deadlines sConn oConn timeout now st)\<lparr>reads := rs\<rparr>)) = (r, st')"
      "r \<noteq> Continue"
proof -
  let ?st1 = "set_deadlines sConn oConn timeout now st"
  have r1: "reads ?st1 = reads st" by (simp add: set_deadlines_def emit_def)
  show ?thesis
  proof (cases "reads st")
    case Nil
    with assms r1 show ?thesis by (intro blocked) (simp_all add: loop_body_def Let_def)
  next
    case (Cons x rs)
    obtain buf err where x: "x = (buf, err)" by (cases x)
    show ?thesis
    proof (cases err)
      case (Some e)
      with assms r1 Cons x show ?thesis
        by (intro read_error [of buf e rs])
           (auto simp: loop_body_def Let_def report_def split: if_splits)
    next
      case None
      show ?thesis
      proof (cases "forwardBufSize < length buf")
        case True
        with assms r1 Cons x None show ?thesis
          by (intro panic [of buf rs]) (simp_all add: loop_body_def Let_def)
      next
        case False
        let ?st2 = "emit (ReadEv sConn buf None) (?st1\<lparr>reads := rs\<rparr>)"
        obtain r3 st3 where w: "write_loop oConn buf ?st2 = (r3, st3)"
          by (cases "write_loop oConn buf ?st2")
        show ?thesis
        proof (cases "r3 = Continue")
          case True
          with assms r1 Cons x None False w show ?thesis
            by (intro flushed [of buf rs st3]) (simp_all add: loop_body_def Let_def)
        next
          case nc: False
          with assms r1 Cons x None False w have "r = r3 \<and> st' = st3"
            by (cases r3) (simp_all add: loop_body_def Let_def)
          with assms r1 Cons x None False w nc show ?thesis
            by (intro stopped [of buf rs]) simp_all
        qed
      qed
    qed
  qed
qed

lemma forwardConn_dir_run [consumes 1, case_names stop continue]:
  assumes run: "forwardConn_dir sConn oConn timeout forwardBufSize now st = (r, st')"
    and stop: "\<And>st. loop_body sConn oConn timeout forwardBufSize now st = (r, st') \<Longrightarrow>
                 r \<noteq> Continue \<Longrightarrow> P st"
    and cont: "\<And>st st1. loop_body sConn oConn timeout forwardBufSize now st = (Continue, st1) \<Longrightarrow>
                 forwardConn_dir sConn oConn timeout forwardBufSize now st1 = (r, st') \<Longrightarrow>
                 P st1 \<Longrightarrow> P st"
  shows "P st"
  using run
proof (induction "length (reads st)" arbitrary: st rule: less_induct)
  case less
  obtain r1 st1 where b: "loop_body sConn oConn timeout forwardBufSize now st = (r1, st1)"
    by (cases "loop_body sConn oConn timeout forwardBufSize now st")
  show ?case
  proof (cases "r1 = Continue")
    case True
    with b less.prems
    have run1: "forwardConn_dir sConn oConn timeout forwardBufSize now st1 = (r, st')"
      by (subst (asm) forwardConn_dir.simps) simp
    from b True have "length (reads st1) < length (reads st)"
      by (auto dest: loop_body_reads)
    then have "P st1" using run1 by (rule less.hyps)
    with b True run1 show ?thesis using cont by blast
  next
    case False
    with b less.prems have "r = r1 \<and> st' = st1"
      by (subst (asm) forwardConn_dir.simps) (cases r1; simp)
    with b False show ?thesis using stop by blast
  qed
qed

lemma loop_body_events [consumes 1, case_names blocked read_error panic writes]:
  assumes body: "loop_body sConn oConn timeout forwardBufSize now st = (r, st')"
  defines "d1 \<equiv> SetDeadline sConn (now (ticks st) + timeout)"
    and "d2 \<equiv> SetDeadline oConn (now (ticks st + 1) + timeout)"
  obtains
    (blocked) "trace st' = trace st @ [d1, d2]" "r = Blocked" "count st' = count st"
      "ticks st' = ticks st + 2" "reads st = []"
  | (read_error) buf err rs where
      "trace st' = trace st @ [d1, d2, ReadEv sConn buf (Some err),
                               Send (report read_error_prefix err)]"
      "r = Return (report read_error_prefix err)" "count st' = count st"
      "ticks st' = ticks st + 2" "reads st = (buf, Some err) # rs" "writes st' = writes st"
  | (panic) buf rs where "trace st' = trace st @ [d1, d2, ReadEv sConn buf None]" "r = Panic"
      "count st' = count st" "ticks st' = ticks st + 2" "reads st = (buf, None) # rs"
      "forwardBufSize < length buf"
  | (writes) buf rs wevs tl where
      "trace st' = trace st @ [d1, d2, ReadEv sConn buf None] @ wevs @ tl"
      "\<forall>ev\<in>set wevs. \<exists>w n e. ev = WriteEv oConn w n e"
      "prefix (written wevs) buf" "length buf \<le> forwardBufSize"
      "ticks st' = ticks st + 2" "reads st = (buf, None) # rs"
      "case r of
         Continue \<Rightarrow> tl = [AddUint64 (of_nat (length buf)) (count st + of_nat (length buf))] \<and>
                     written wevs = buf \<and> \<not> list_ex failed_write wevs \<and>
                     count st' = count st + of_nat (length buf)
       | Return e \<Rightarrow> tl = [Send e] \<and> wevs \<noteq> [] \<and> count st' = count st \<and>
                     (\<exists>w n err. last wevs = WriteEv oConn w n (Some err) \<and>
                        e = report write_error_prefix err)
       | Blocked \<Rightarrow> tl = [] \<and> \<not> list_ex failed_write wevs \<and> count st' = count st
       | Panic \<Rightarrow> tl = [] \<and> \<not> list_ex failed_write wevs \<and> count st' = count st"
proof -
  let ?st1 = "set_deadlines sConn oConn timeout now st"
  have t1: "trace ?st1 = trace st @ [d1, d2]" "count ?st1 = count st" "ticks ?st1 = ticks st + 2"
    "writes ?st1 = writes st"
    by (simp_all add: set_deadlines_def emit_def d1_def d2_def)
  from body show ?thesis
  proof (cases rule: loop_body_elims)
    case blocked
    then show ?thesis using t1 by (intro that(1)) simp_all
  next
    case (read_error buf e rs)
    then show ?thesis using t1 by (intro that(2) [of buf e rs]) (simp_all add: emit_def)
  next
    case (panic buf rs)
    then show ?thesis using t1 by (intro that(3) [of buf rs]) (simp_all add: emit_def)
  next
    case (flushed buf rs st3)
    let ?st2 = "emit (ReadEv sConn buf None) (?st1\<lparr>reads := rs\<rparr>)"
    have t2: "trace ?st2 = trace st @ [d1, d2, ReadEv sConn buf None]" "count ?st2 = count st"
      "ticks ?st2 = ticks st + 2"
      using t1 by (simp_all add: emit_def)
    from write_loop_shape [OF flushed(3)] obtain wevs tl where
      w: "trace st3 = trace ?st2 @ wevs @ tl"
        "\<forall>ev\<in>set wevs. \<exists>w n e. ev = WriteEv oConn w n e"
        "prefix (written wevs) buf" "count st3 = count ?st2" "ticks st3 = ticks ?st2"
        "tl = []" "written wevs = buf" "\<not> list_ex failed_write wevs"
      by auto
    show ?thesis
    proof (rule that(4) [of buf wevs
          "[AddUint64 (of_nat (length buf)) (count st + of_nat (length buf))]" rs])
      show "trace st' = trace st @ [d1, d2, ReadEv sConn buf None] @ wevs @
              [AddUint64 (of_nat (length buf)) (count st + of_nat (length buf))]"
        using flushed(5) w t2 by (simp add: emit_def)
      show "case r of
         Continue \<Rightarrow> [AddUint64 (of_nat (length buf)) (count st + of_nat (length buf))] =
                       [AddUint64 (of_nat (length buf)) (count st + of_nat (length buf))] \<and>
                     written wevs = buf \<and> \<not> list_ex failed_write wevs \<and>
                     count st' = count st + of_nat (length buf)
       | Return e \<Rightarrow> [AddUint64 (of_nat (length buf)) (count st + of_nat (length buf))] = [Send e]
                     \<and> wevs \<noteq> [] \<and> count st' = count st \<and>
                     (\<exists>w n err. last wevs = WriteEv oConn w n (Some err) \<and>
                        e = report write_error_prefix err)
       | Blocked \<Rightarrow> [AddUint64 (of_nat (length buf)) (count st + of_nat (length buf))] = [] \<and>
                    \<not> list_ex failed_write wevs \<and> count st' = count st
       | Panic \<Rightarrow> [AddUint64 (of_nat (length buf)) (count st + of_nat (length buf))] = [] \<and>
                    \<not> list_ex failed_write wevs \<and> count st' = count st"
        using flushed(4,5) w t2 by (simp add: emit_def)
    qed (use flushed w t2 in \<open>simp_all add: emit_def\<close>)
  next
    case (stopped buf rs)
    let ?st2 = "emit (ReadEv sConn buf None) (?st1\<lparr>reads := rs\<rparr>)"
    have t2: "trace ?st2 = trace st @ [d1, d2, ReadEv sConn buf None]" "count ?st2 = count st"
      "ticks ?st2 = ticks st + 2"
      using t1 by (simp_all add: emit_def)
    from write_loop_shape [OF stopped(3)] obtain wevs tl where
      w: "trace st' = trace ?st2 @ wevs @ tl"
        "\<forall>ev\<in>set wevs. \<exists>w n e. ev = WriteEv oConn w n e"
        "prefix (written wevs) buf" "count st' = count ?st2" "ticks st' = ticks ?st2"
      and k: "(case r of
              Continue \<Rightarrow> tl = [] \<and> written wevs = buf \<and> \<not> list_ex failed_write wevs
            | Return e \<Rightarrow> tl = [Send e] \<and> wevs \<noteq> [] \<and>
                (\<exists>w n err. last wevs = WriteEv oConn w n (Some err) \<and>
                   e = report write_error_prefix err)
            | Blocked \<Rightarrow> tl = [] \<and> writes st' = [] \<and> \<not> list_ex failed_write wevs
            | Panic \<Rightarrow> tl = [] \<and> \<not> list_ex failed_write wevs)"
      by blast
    show ?thesis
    proof (rule that(4) [of buf wevs tl rs])
      show "trace st' = trace st @ [d1, d2, ReadEv sConn buf None] @ wevs @ tl"
        using w t2 by simp
      show "case r of
         Continue \<Rightarrow> tl = [AddUint64 (of_nat (length buf)) (count st + of_nat (length buf))] \<and>
                     written wevs = buf \<and> \<not> list_ex failed_write wevs \<and>
                     count st' = count st + of_nat (length buf)
       | Return e \<Rightarrow> tl = [Send e] \<and> wevs \<noteq> [] \<and> count st' = count st \<and>
                     (\<exists>w n err. last wevs = WriteEv oConn w n (Some err) \<and>
                        e = report write_error_prefix err)
       | Blocked \<Rightarrow> tl = [] \<and> \<not> list_ex failed_write wevs \<and> count st' = count st
       | Panic \<Rightarrow> tl = [] \<and> \<not> list_ex failed_write wevs \<and> count st' = count st"
        using stopped(4) k w t2 by (cases r) simp_all
    qed (use stopped w t2 in simp_all)
  qed
qed

lemma loop_body_continue:
  assumes "loop_body sConn oConn timeout forwardBufSize now st = (Continue, st1)"
  shows "\<exists>buf rs wevs.
           reads st = (buf, None) # rs \<and> length buf \<le> forwardBufSize \<and>
           trace st1 = trace st @
             [SetDeadline sConn (now (ticks st) + timeout),
              SetDeadline oConn (now (ticks st + 1) + timeout),
              ReadEv sConn buf None] @ wevs @
             [AddUint64 (of_nat (length buf)) (count st + of_nat (length buf))] \<and>
           (\<forall>ev\<in>set wevs. \<exists>w n. ev = WriteEv oConn w n None) \<and>
           written wevs = buf \<and>
           count st1 = count st + of_nat (length buf) \<and>
           ticks st1 = ticks st + 2"
  using assms
proof (cases rule: loop_body_events)
  case (writes buf rs wevs tl)
  have "\<forall>ev\<in>set wevs. \<exists>w n. ev = WriteEv oConn w n None"
  proof
    fix ev assume ev: "ev \<in> set wevs"
    with writes(2) obtain w n e where e: "ev = WriteEv oConn w n e" by blast
    from writes(7) have "\<not> list_ex failed_write wevs" by simp
    with ev have "\<not> failed_write ev" by (auto simp: list_ex_iff)
    with e have "e = None" by (cases e) (simp_all add: failed_write_def)
    with e show "\<exists>w n. ev = WriteEv oConn w n None" by blast
  qed
  with writes show ?thesis by auto
qed simp_all

lemma counter_values_append: "counter_values (xs @ ys) = counter_values xs @ counter_values ys"
  by (induction xs rule: counter_values.induct) auto

lemma counter_values_writes:
  "\<forall>ev\<in>set wevs. \<exists>w n e. ev = WriteEv c w n e \<Longrightarrow> counter_values wevs = []"
  by (induction wevs) auto

lemma unat_add_of_nat:
  fixes c :: "64 word"
  assumes "unat c + n < 2 ^ 64"
  shows "unat (c + of_nat n) = unat c + n"
proof -
  from assms have "n < 2 ^ 64" by simp
  then have "unat (of_nat n :: 64 word) = n" by (simp add: unat_of_nat)
  with assms show ?thesis by (simp add: unat_word_ariths)
qed

lemma split_at_event:
  assumes "xs @ ys = pre @ e # post"
  shows "(\<exists>us. xs = pre @ e # us) \<or> (\<exists>pre2. pre = xs @ pre2 \<and> ys = pre2 @ e # post)"
  using assms by (auto simp: append_eq_append_conv2 append_eq_Cons_conv)

lemma first_read_position:
  assumes "a # b # R # others = pre @ e # us"
    and "\<not> is_ReadEv a" "\<not> is_ReadEv b" "is_ReadEv e" "\<not> list_ex is_ReadEv others"
  shows "pre = [a, b] \<and> e = R"
proof (cases pre)
  case Nil
  with assms show ?thesis by auto
next
  case (Cons x pre1)
  show ?thesis
  proof (cases pre1)
    case Nil
    with Cons assms show ?thesis by auto
  next
    case c2: (Cons y pre2)
    show ?thesis
    proof (cases pre2)
      case Nil
      with Cons c2 assms show ?thesis by auto
    next
      case c3: (Cons z pre3)
      with Cons c2 assms have "e \<in> set others" by auto
      with assms(4,5) show ?thesis by (auto simp: list_ex_iff)
    qed
  qed
qed

lemma reads_guarded_step:
  fixes now :: "nat \<Rightarrow> int"
  assumes others: "\<not> list_ex is_ReadEv others"
    and later: "\<forall>pre c buf err post. evs2 = pre @ ReadEv c buf err # post \<longrightarrow>
        c = sConn \<and> (\<exists>pre'. pre = pre' @
          [SetDeadline sConn (now (k + 2 + 2 * length (filter is_ReadEv pre)) + timeout),
           SetDeadline oConn (now (k + 2 + 2 * length (filter is_ReadEv pre) + 1) + timeout)])"
  shows "\<forall>pre c buf err post.
        (SetDeadline sConn (now k + timeout) # SetDeadline oConn (now (k + 1) + timeout) #
           ReadEv sConn b e # others) @ evs2 = pre @ ReadEv c buf err # post \<longrightarrow>
        c = sConn \<and> (\<exists>pre'. pre = pre' @
          [SetDeadline sConn (now (k + 2 * length (filter is_ReadEv pre)) + timeout),
           SetDeadline oConn (now (k + 2 * length (filter is_ReadEv pre) + 1) + timeout)])"
proof (intro allI impI)
  fix pre c buf err post
  let ?evs1 = "SetDeadline sConn (now k + timeout) # SetDeadline oConn (now (k + 1) + timeout) #
           ReadEv sConn b e # others"
  assume eq: "?evs1 @ evs2 = pre @ ReadEv c buf err # post"
  have n1: "length (filter is_ReadEv ?evs1) = 1"
    using others by (simp add: list_ex_iff filter_empty_conv)
  from split_at_event [OF eq]
  show "c = sConn \<and> (\<exists>pre'. pre = pre' @
          [SetDeadline sConn (now (k + 2 * length (filter is_ReadEv pre)) + timeout),
           SetDeadline oConn (now (k + 2 * length (filter is_ReadEv pre) + 1) + timeout)])"
  proof
    assume "\<exists>us. ?evs1 = pre @ ReadEv c buf err # us"
    then obtain us where "?evs1 = pre @ ReadEv c buf err # us" ..
    from first_read_position [OF this _ _ _ others]
    have "pre = [SetDeadline sConn (now k + timeout), SetDeadline oConn (now (k + 1) + timeout)]"
      and "ReadEv c buf err = ReadEv sConn b e"
      by simp_all
    then show ?thesis by simp
  next
    assume "\<exists>pre2. pre = ?evs1 @ pre2 \<and> evs2 = pre2 @ ReadEv c buf err # post"
    then obtain pre2 where p: "pre = ?evs1 @ pre2" and e2: "evs2 = pre2 @ ReadEv c buf err # post"
      by blast
    from later e2 obtain pre' where c: "c = sConn" and p2: "pre2 = pre' @
          [SetDeadline sConn (now (k + 2 + 2 * length (filter is_ReadEv pre2)) + timeout),
           SetDeadline oConn (now (k + 2 + 2 * length (filter is_ReadEv pre2) + 1) + timeout)]"
      by blast
    have n: "length (filter is_ReadEv pre) = 1 + length (filter is_ReadEv pre2)"
      unfolding p filter_append length_append n1 ..
    have "pre = (?evs1 @ pre') @
          [SetDeadline sConn (now (k + 2 * length (filter is_ReadEv pre)) + timeout),
           SetDeadline oConn (now (k + 2 * length (filter is_ReadEv pre) + 1) + timeout)]"
      unfolding n using p p2 by simp
    with c show ?thesis by blast
  qed
qed

lemma session_inv_start: "session_inv a b (session_start a b)"
  by (simp add: session_inv_def session_start_def)

lemma session_inv_step: "step s s' \<Longrightarrow> session_inv a b s \<Longrightarrow> session_inv a b s'"
  by (induction rule: step.induct)
     (auto simp: session_inv_def split: caller.splits if_splits)

lemma session_inv_reachable:
  "rtranclp step (session_start a b) s \<Longrightarrow> session_inv a b s"
  by (induction rule: rtranclp_induct) (auto intro: session_inv_start session_inv_step)

lemma step_pending: "step s s' \<Longrightarrow> pending s' < pending s"
  by (induction rule: step.induct) (simp_all add: pending_def)

lemma session_inv_room: "session_inv a b s \<Longrightarrow> length (errChan s) \<le> 2"
  by (auto simp: session_inv_def split: caller.splits if_splits)

section \<open>Properties of CheckPre\<close>

text \<open>
  C1. CheckPre answers Unknown unless the network name starts with \<open>tcp\<close>, the address
  splits into host and port, the host is a literal IP and the port is a number of one
  of the two tables. With the default tables, a literal-IP TCP address gives HTTP when
  its port reads as 80, HTTPS when it reads as 443 and Unknown for every other port.
  An address whose host is not a literal IP gives Unknown whatever the port.
\<close>

theorem CheckPre_classify:
  "(CheckPre cfg ParseIP network address \<noteq> preProtocolUnknown \<longrightarrow>
      HasPrefix network ''tcp'' \<and>
      (\<exists>host port portInt. SplitHostPort address = Inr (host, port) \<and> ParseIP host \<and>
         Atoi port = Some portInt \<and>
         (in_list portInt (preHttpPorts cfg) \<or> in_list portInt (preHttpsPorts cfg))))
   \<and> (HasPrefix network ''tcp'' \<and> SplitHostPort address = Inr (host, port) \<and> ParseIP host \<longrightarrow>
        CheckPre default_ports ParseIP network address =
          (if Atoi port = Some 80 then preProtocolHttp
           else if Atoi port = Some 443 then preProtocolHttps
           else preProtocolUnknown))
   \<and> (SplitHostPort address = Inr (host, port) \<and> \<not> ParseIP host \<longrightarrow>
        CheckPre cfg ParseIP network address = preProtocolUnknown)"
proof (intro conjI impI)
  assume "CheckPre cfg ParseIP network address \<noteq> preProtocolUnknown"
  then show "HasPrefix network ''tcp''"
    by (auto simp: CheckPre_def split: if_splits)
next
  assume a: "CheckPre cfg ParseIP network address \<noteq> preProtocolUnknown"
  then show "\<exists>host port portInt. SplitHostPort address = Inr (host, port) \<and> ParseIP host \<and>
         Atoi port = Some portInt \<and>
         (in_list portInt (preHttpPorts cfg) \<or> in_list portInt (preHttpsPorts cfg))"
    by (auto simp: CheckPre_def split: if_splits sum.splits option.splits)
next
  assume "HasPrefix network ''tcp'' \<and> SplitHostPort address = Inr (host, port) \<and> ParseIP host"
  then show "CheckPre default_ports ParseIP network address =
          (if Atoi port = Some 80 then preProtocolHttp
           else if Atoi port = Some 443 then preProtocolHttps
           else preProtocolUnknown)"
    by (auto simp: CheckPre_def default_ports_def split: option.splits)
next
  assume "SplitHostPort address = Inr (host, port) \<and> \<not> ParseIP host"
  then show "CheckPre cfg ParseIP network address = preProtocolUnknown"
    by (simp add: CheckPre_def)
qed

theorem CheckPre_classify_witness:
  "CheckPre default_ports dotted_quad ''tcp'' ''93.184.216.34:80'' = preProtocolHttp
   \<and> CheckPre default_ports dotted_quad ''tcp'' ''93.184.216.34:443'' = preProtocolHttps
   \<and> CheckPre default_ports dotted_quad ''tcp'' ''93.184.216.34:8080'' = preProtocolUnknown
   \<and> CheckPre default_ports dotted_quad ''tcp'' ''example.com:80'' = preProtocolUnknown
   \<and> (\<exists>host port portInt.
         SplitHostPort ''93.184.216.34:80'' = Inr (host, port) \<and> dotted_quad host \<and>
         Atoi port = Some portInt \<and>
         (in_list portInt (preHttpPorts default_ports) \<or>
          in_list portInt (preHttpsPorts default_ports)))"
proof -
  have tcp: "HasPrefix ''tcp'' ''tcp''" by code_simp
  have ip: "dotted_quad ''93.184.216.34''" by code_simp
  have name: "\<not> dotted_quad ''example.com''" by code_simp
  have s1: "SplitHostPort ''93.184.216.34:80'' = Inr (''93.184.216.34'', ''80'')" by code_simp
  have s2: "SplitHostPort ''93.184.216.34:443'' = Inr (''93.184.216.34'', ''443'')" by code_simp
  have s3: "SplitHostPort ''93.184.216.34:8080'' = Inr (''93.184.216.34'', ''8080'')" by code_simp
  have s4: "SplitHostPort ''example.com:80'' = Inr (''example.com'', ''80'')" by code_simp
  have a1: "Atoi ''80'' = Some 80" by code_simp
  have a2: "Atoi ''443'' = Some 443" by code_simp
  have a3: "Atoi ''8080'' = Some 8080" by code_simp
  have c1: "CheckPre default_ports dotted_quad ''tcp'' ''93.184.216.34:80'' = preProtocolHttp"
    using CheckPre_classify [where ParseIP = dotted_quad and network = "''tcp''"
        and address = "''93.184.216.34:80''" and host = "''93.184.216.34''" and port = "''80''"]
      tcp ip s1 a1 by simp
  have c2: "CheckPre default_ports dotted_quad ''tcp'' ''93.184.216.34:443'' = preProtocolHttps"
    using CheckPre_classify [where ParseIP = dotted_quad and network = "''tcp''"
        and address = "''93.184.216.34:443''" and host = "''93.184.216.34''" and port = "''443''"]
      tcp ip s2 a2 by simp
  have c3: "CheckPre default_ports dotted_quad ''tcp'' ''93.184.216.34:8080'' = preProtocolUnknown"
    using CheckPre_classify [where ParseIP = dotted_quad and network = "''tcp''"
        and address = "''93.184.216.34:8080''" and host = "''93.184.216.34''" and port = "''8080''"]
      tcp ip s3 a3 by simp
  have c4: "CheckPre default_ports dotted_quad ''tcp'' ''example.com:80'' = preProtocolUnknown"
    using CheckPre_classify [where ParseIP = dotted_quad and cfg = default_ports
        and network = "''tcp''"
        and address = "''example.com:80''" and host = "''example.com''" and port = "''80''"]
      name s4 by simp
  have "CheckPre default_ports dotted_quad ''tcp'' ''93.184.216.34:80'' \<noteq> preProtocolUnknown"
    using c1 by (simp add: preProtocolHttp_def preProtocolUnknown_def)
  with CheckPre_classify [where ParseIP = dotted_quad and cfg = default_ports
      and network = "''tcp''" and address = "''93.184.216.34:80''"]
  have c5: "\<exists>host port portInt.
         SplitHostPort ''93.184.216.34:80'' = Inr (host, port) \<and> dotted_quad host \<and>
         Atoi port = Some portInt \<and>
         (in_list portInt (preHttpPorts default_ports) \<or>
          in_list portInt (preHttpsPorts default_ports))"
    by blast
  from c1 c2 c3 c4 c5 show ?thesis by simp
qed

section \<open>Properties of Pre\<close>

text \<open>
  C9. Called with a protocol category that is neither HTTP nor HTTPS, Pre returns the
  original connection, the original address and \<open>ok = false\<close>, and has called no
  sniffer (its call log is empty). The same holds when the address does not split into
  host and port.
\<close>

theorem Pre_no_sniffing:
  "(preProtoco \<noteq> preProtocolHttp \<and> preProtoco \<noteq> preProtocolHttps \<longrightarrow>
      Pre lib conn address preProtoco = ((conn, address, False), []))
   \<and> (isl (SplitHostPort address) \<longrightarrow>
      Pre lib conn address preProtoco = ((conn, address, False), []))"
  by (auto simp: Pre_def split: sum.splits)

theorem Pre_no_sniffing_witness:
  "Pre (fixed_vhost None ''example.com'') (Socket 0) ''93.184.216.34:8080'' preProtocolUnknown =
     ((Socket 0, ''93.184.216.34:8080'', False), [])
   \<and> Pre (fixed_vhost None ''example.com'') (Socket 0) ''93.184.216.34'' preProtocolHttp =
     ((Socket 0, ''93.184.216.34'', False), [])"
proof -
  have p: "preProtocolUnknown \<noteq> preProtocolHttp \<and> preProtocolUnknown \<noteq> preProtocolHttps"
    by (simp add: preProtocolUnknown_def preProtocolHttp_def preProtocolHttps_def)
  have s: "isl (SplitHostPort ''93.184.216.34'')" by code_simp
  from Pre_no_sniffing [where preProtoco = preProtocolUnknown
      and lib = "fixed_vhost None ''example.com''" and conn = "Socket 0"
      and address = "''93.184.216.34:8080''"] p
  have a: "Pre (fixed_vhost None ''example.com'') (Socket 0) ''93.184.216.34:8080''
             preProtocolUnknown = ((Socket 0, ''93.184.216.34:8080'', False), [])"
    by blast
  from Pre_no_sniffing [where preProtoco = preProtocolHttp
      and lib = "fixed_vhost None ''example.com''" and conn = "Socket 0"
      and address = "''93.184.216.34''"] s
  have b: "Pre (fixed_vhost None ''example.com'') (Socket 0) ''93.184.216.34'' preProtocolHttp =
             ((Socket 0, ''93.184.216.34'', False), [])"
    by blast
  from a b show ?thesis by (rule conjI)
qed

text \<open>
  C3. When Pre answers \<open>ok = false\<close> the address it returns is the one it was given,
  and the connection it returns is the original one when no sniffer was called and the
  connection returned by the sniffer otherwise. Pre fails when the address does not
  split (the original connection comes back), when the sniffer reports an error and when
  the extracted host name is empty (the sniffer's connection comes back in both cases).
\<close>

theorem Pre_failure:
  assumes "Pre lib conn address preProtoco = ((nConn, nAddress, ok), calls)"
  shows "(\<not> ok \<longrightarrow>
            nAddress = address \<and>
            (calls = [] \<longrightarrow> nConn = conn) \<and>
            (calls \<noteq> [] \<longrightarrow>
               (preProtoco = preProtocolHttp \<and> hd calls = CallHTTP conn \<and>
                  nConn = fst (HTTP lib conn)) \<or>
               (preProtoco = preProtocolHttps \<and> hd calls = CallTLS conn \<and>
                  nConn = fst (TLS lib conn))))
         \<and> (isl (SplitHostPort address) \<longrightarrow> \<not> ok \<and> nConn = conn)
         \<and> (\<not> isl (SplitHostPort address) \<and> preProtoco = preProtocolHttp \<and>
              (snd (HTTP lib conn) \<noteq> None \<or> HTTP_Host lib (fst (HTTP lib conn)) = []) \<longrightarrow>
              \<not> ok \<and> nConn = fst (HTTP lib conn))
         \<and> (\<not> isl (SplitHostPort address) \<and> preProtoco = preProtocolHttps \<and>
              (snd (TLS lib conn) \<noteq> None \<or> TLS_Host lib (fst (TLS lib conn)) = []) \<longrightarrow>
              \<not> ok \<and> nConn = fst (TLS lib conn))"
  using assms
  by (auto simp: Pre_def rewrite_def preProtocolHttp_def preProtocolHttps_def
           split: sum.splits prod.splits option.splits if_splits)

theorem Pre_failure_witness:
  "Pre (fixed_vhost (Some (errorString ''malformed HTTP request'')) []) (Socket 0)
       ''93.184.216.34:80'' preProtocolHttp =
     ((sharedConn (Socket 0), ''93.184.216.34:80'', False), [CallHTTP (Socket 0)])
   \<and> Pre (fixed_vhost None []) (Socket 0) ''93.184.216.34:443'' preProtocolHttps =
     ((sharedConn (Socket 0), ''93.184.216.34:443'', False),
      [CallTLS (Socket 0), CallHost (sharedConn (Socket 0)), CallFree (sharedConn (Socket 0))])
   \<and> Pre (fixed_vhost None ''example.com'') (Socket 0) ''93.184.216.34'' preProtocolHttp =
     ((Socket 0, ''93.184.216.34'', False), [])
   \<and> sharedConn (Socket 0) =
       fst (HTTP (fixed_vhost (Some (errorString ''malformed HTTP request'')) []) (Socket 0))
   \<and> sharedConn (Socket 0) = fst (TLS (fixed_vhost None []) (Socket 0))"
proof -
  let ?bad = "fixed_vhost (Some (errorString ''malformed HTTP request'')) []"
  let ?nohost = "fixed_vhost None []"
  let ?good = "fixed_vhost None ''example.com''"
  have e1: "Pre ?bad (Socket 0) ''93.184.216.34:80'' preProtocolHttp =
     ((sharedConn (Socket 0), ''93.184.216.34:80'', False), [CallHTTP (Socket 0)])"
    by code_simp
  have e2: "Pre ?nohost (Socket 0) ''93.184.216.34:443'' preProtocolHttps =
     ((sharedConn (Socket 0), ''93.184.216.34:443'', False),
      [CallTLS (Socket 0), CallHost (sharedConn (Socket 0)), CallFree (sharedConn (Socket 0))])"
    by code_simp
  have e3: "Pre ?good (Socket 0) ''93.184.216.34'' preProtocolHttp =
     ((Socket 0, ''93.184.216.34'', False), [])"
    by code_simp
  have s1: "\<not> isl (SplitHostPort ''93.184.216.34:80'')" by code_simp
  have s2: "\<not> isl (SplitHostPort ''93.184.216.34:443'')" by code_simp
  have f1: "snd (HTTP ?bad (Socket 0)) \<noteq> None" by (simp add: fixed_vhost_def)
  have f2: "TLS_Host ?nohost (fst (TLS ?nohost (Socket 0))) = []" by (simp add: fixed_vhost_def)
  from Pre_failure [OF e1] s1 f1
  have c1: "sharedConn (Socket 0) = fst (HTTP ?bad (Socket 0))" by blast
  from Pre_failure [OF e2] s2 f2
  have c2: "sharedConn (Socket 0) = fst (TLS ?nohost (Socket 0))" by blast
  have s3: "isl (SplitHostPort ''93.184.216.34'')" by code_simp
  from Pre_failure [OF e3] s3 have c3: "(Socket 0 :: conn) = Socket 0" by blast
  from e1 e2 e3 c1 c2 c3 show ?thesis by blast
qed

text \<open>
  C2. The port of the address returned by a successful Pre should be the port of the
  address it was given. For the host name \<open>[::1]\<close>, a bracketed IPv6 literal without a
  port as an HTTP Host header carries it, \<open>SplitHostPort\<close> fails on the host name, Pre
  joins the name as it is and answers \<open>ok = true\<close> with \<open>[[::1]]:80\<close>, an address that
  \<open>SplitHostPort\<close> rejects for its missing port.
\<close>

theorem Pre_bracketed_host_unsplittable:
  "Pre (fixed_vhost None ''[::1]'') (Socket 0) ''93.184.216.34:80'' preProtocolHttp =
     ((sharedConn (Socket 0), ''[[::1]]:80'', True),
      [CallHTTP (Socket 0), CallHost (sharedConn (Socket 0)), CallFree (sharedConn (Socket 0))])
   \<and> SplitHostPort ''93.184.216.34:80'' = Inr (''93.184.216.34'', ''80'')
   \<and> SplitHostPort ''[[::1]]:80'' = Inl (AddrError ''missing port in address'' ''[[::1]]:80'')"
  by code_simp

section \<open>Properties of one forwarding direction\<close>

text \<open>
  C10. When a read returns bytes together with an error, the task sets the two
  deadlines, reads, puts the terminal event on the channel and returns: the bytes are
  never passed to \<open>Write\<close>, the write script is untouched and the counter keeps its value.
\<close>

theorem read_error_discards_chunk:
  assumes "reads st = (buf, Some err) # rs" and "buf \<noteq> []"
  shows "forwardConn_dir sConn oConn timeout forwardBufSize now st =
           (Return (if err = EOF then EOF else Errorf read_error_prefix err),
            st\<lparr>reads := rs, ticks := ticks st + 2,
               trace := trace st @
                 [SetDeadline sConn (now (ticks st) + timeout),
                  SetDeadline oConn (now (ticks st + 1) + timeout),
                  ReadEv sConn buf (Some err),
                  Send (if err = EOF then EOF else Errorf read_error_prefix err)]\<rparr>)"
  using assms
  by (subst forwardConn_dir.simps)
     (simp add: loop_body_def set_deadlines_def emit_def Let_def)

theorem read_error_discards_chunk_witness:
  "forwardConn_dir (Socket 0) (Socket 1) 600 4096 int
     \<lparr>reads = [([1, 2, 3], Some (errorString ''connection reset''))], writes = [(3, None)],
      ticks = 0, count = 7, trace = []\<rparr> =
   (Return (Errorf read_error_prefix (errorString ''connection reset'')),
    \<lparr>reads = [], writes = [(3, None)], ticks = 2, count = 7,
     trace = [SetDeadline (Socket 0) 600, SetDeadline (Socket 1) 601,
              ReadEv (Socket 0) [1, 2, 3] (Some (errorString ''connection reset'')),
              Send (Errorf read_error_prefix (errorString ''connection reset''))]\<rparr>)"
  using read_error_discards_chunk [where sConn = "Socket 0" and oConn = "Socket 1"
      and timeout = 600 and forwardBufSize = 4096 and now = int
      and buf = "[1, 2, 3]" and err = "errorString ''connection reset''" and rs = "[]"
      and st = "\<lparr>reads = [([1, 2, 3], Some (errorString ''connection reset''))],
                 writes = [(3, None)], ticks = 0, count = 7, trace = []\<rparr>"]
  by simp

text \<open>
  C7. In a pass of the loop whose read succeeds with the chunk \<open>buf\<close>, everything after
  the read is a run of \<open>Write\<close> calls on the destination followed by at most one more
  event. The calls use up the write script in order. Each call is given exactly the
  bytes of the chunk not yet accepted, never an empty buffer, and every call but the last
  succeeded with a count within its buffer, as did the last one unless the pass returns
  or panics. The bytes the destination accepted are a
  prefix of the chunk, in order. The pass goes on to the next one exactly when they are
  the whole chunk without a failed write, and only then is the counter raised, by the
  length of the chunk, after the last write. Otherwise the pass stops in one of three
  ways, and leaves the counter alone: it returns, on a last write that reported an
  error, with that error classified as its terminal event; it waits inside \<open>Write\<close>, the
  script being used up with part of the chunk still to write; or it panics, on a chunk
  longer than the buffer before any write, or on a last write whose count is negative or
  beyond its buffer.
\<close>

theorem loop_body_writes_chunk:
  assumes "reads st = (buf, None) # rs"
    and "loop_body sConn oConn timeout forwardBufSize now st = (r, st')"
  shows "\<exists>wevs tl.
           trace st' = trace st @
             [SetDeadline sConn (now (ticks st) + timeout),
              SetDeadline oConn (now (ticks st + 1) + timeout),
              ReadEv sConn buf None] @ wevs @ tl
           \<and> (\<forall>ev\<in>set wevs. \<exists>w n e. ev = WriteEv oConn w n e)
           \<and> prefix (written wevs) buf
           \<and> (r = Continue \<longrightarrow>
                written wevs = buf \<and> \<not> list_ex failed_write wevs \<and>
                tl = [AddUint64 (of_nat (length buf)) (count st + of_nat (length buf))] \<and>
                count st' = count st + of_nat (length buf))
           \<and> (r \<noteq> Continue \<longrightarrow> count st' = count st \<and> counter_values tl = [])
           \<and> (\<forall>e. r = Return e \<longrightarrow>
                wevs \<noteq> [] \<and> failed_write (last wevs) \<and> tl = [Send e])
           \<and> writes st = write_results wevs @ writes st'
           \<and> reads st' = rs \<and> ticks st' = ticks st + 2
           \<and> (\<forall>pre w n e post. wevs = pre @ WriteEv oConn w n e # post \<longrightarrow>
                w = drop (length (written pre)) buf \<and> w \<noteq> [] \<and>
                (post \<noteq> [] \<or> r = Continue \<or> r = Blocked \<longrightarrow> e = None \<and> 0 \<le> n \<and> n \<le> int (length w)))
           \<and> (\<forall>e. r = Return e \<longrightarrow>
                (\<exists>w n err. last wevs = WriteEv oConn w n (Some err) \<and>
                   e = (if err = EOF then EOF else Errorf write_error_prefix err)))
           \<and> (r = Blocked \<longrightarrow>
                tl = [] \<and> writes st' = [] \<and> written wevs \<noteq> buf \<and>
                \<not> list_ex failed_write wevs)
           \<and> (r = Panic \<longrightarrow>
                tl = [] \<and>
                (forwardBufSize < length buf \<and> wevs = [] \<or>
                 wevs \<noteq> [] \<and>
                 (\<exists>w n. last wevs = WriteEv oConn w n None \<and> (n < 0 \<or> int (length w) < n))))
           \<and> (forwardBufSize < length buf \<longrightarrow> r = Panic \<and> wevs = [])"
  using assms(2)
proof (cases rule: loop_body_elims)
  case blocked
  with assms(1) show ?thesis by simp
next
  case (read_error buf' e rs')
  with assms(1) show ?thesis by simp
next
  case (panic buf' rs')
  with assms(1) have b: "buf' = buf" "rs' = rs" by simp_all
  from panic(4) have "trace st' = trace st @
             [SetDeadline sConn (now (ticks st) + timeout),
              SetDeadline oConn (now (ticks st + 1) + timeout),
              ReadEv sConn buf None] @ [] @ []"
    and "writes st = write_results ([] :: 'a event list) @ writes st'"
    and "reads st' = rs" and "ticks st' = ticks st + 2" and "count st' = count st"
    unfolding b by (simp_all add: emit_def set_deadlines_def)
  with panic(2,3) show ?thesis
    unfolding b by (intro exI [of _ "[]"]) simp
next
  case (flushed buf' rs' st3)
  with assms(1) have b: "buf' = buf" "rs' = rs" by simp_all
  let ?st2 = "emit (ReadEv sConn buf None)
               ((set_deadlines sConn oConn timeout now st)\<lparr>reads := rs\<rparr>)"
  have t2: "trace ?st2 = trace st @
             [SetDeadline sConn (now (ticks st) + timeout),
              SetDeadline oConn (now (ticks st + 1) + timeout),
              ReadEv sConn buf None]"
    "count ?st2 = count st" "ticks ?st2 = ticks st + 2" "writes ?st2 = writes st"
    "reads ?st2 = rs"
    by (simp_all add: emit_def set_deadlines_def)
  from flushed(3,4) have run: "write_loop oConn buf ?st2 = (r, st3)" unfolding b by simp
  from write_loop_run [OF run] obtain wevs tl where
    t: "trace st3 = trace ?st2 @ wevs @ tl"
    and w: "\<forall>ev\<in>set wevs. \<exists>w n e. ev = WriteEv oConn w n e"
    and s: "writes ?st2 = write_results wevs @ writes st3"
    and a: "\<forall>pre w n e post. wevs = pre @ WriteEv oConn w n e # post \<longrightarrow>
           w = drop (length (written pre)) buf \<and> w \<noteq> [] \<and>
           (post \<noteq> [] \<or> r = Continue \<or> r = Blocked \<longrightarrow> e = None \<and> 0 \<le> n \<and> n \<le> int (length w))"
    and p: "prefix (written wevs) buf"
    and c: "count st3 = count ?st2" "ticks st3 = ticks ?st2" "reads st3 = reads ?st2"
    and k0: "(case r of
          Continue \<Rightarrow> tl = [] \<and> written wevs = buf \<and> \<not> list_ex failed_write wevs
        | Return e \<Rightarrow> tl = [Send e] \<and> wevs \<noteq> [] \<and>
            (\<exists>w n err. last wevs = WriteEv oConn w n (Some err) \<and>
               e = report write_error_prefix err)
        | Blocked \<Rightarrow> tl = [] \<and> writes st3 = [] \<and> written wevs \<noteq> buf \<and>
            \<not> list_ex failed_write wevs
        | Panic \<Rightarrow> tl = [] \<and> wevs \<noteq> [] \<and>
            (\<exists>w n. last wevs = WriteEv oConn w n None \<and> (n < 0 \<or> int (length w) < n)))"
    by blast
  from k0 flushed(4) have k: "tl = []" "written wevs = buf" "\<not> list_ex failed_write wevs"
    by simp_all
  let ?tl = "[AddUint64 (of_nat (length buf)) (count st + of_nat (length buf))]"
  from flushed(5) t t2 c k(1)
  have 1: "trace st' = trace st @
             [SetDeadline sConn (now (ticks st) + timeout),
              SetDeadline oConn (now (ticks st + 1) + timeout),
              ReadEv sConn buf None] @ wevs @ ?tl"
    and 2: "count st' = count st + of_nat (length buf)"
    and 3: "writes st = write_results wevs @ writes st'"
    and 4: "reads st' = rs" "ticks st' = ticks st + 2"
    using s unfolding b by (simp_all add: emit_def)
  from flushed(2) have 5: "\<not> forwardBufSize < length buf" unfolding b by simp
  have 6: "r = Continue" by (rule flushed(4))
  show ?thesis
    apply (rule exI [of _ wevs])
    apply (rule exI [of _ ?tl])
    using 1 2 3 4 5 6 w a p k(2,3)
    apply (intro conjI)
                  apply (simp; fail | blast)+
    done
next
  case (stopped buf' rs')
  with assms(1) have b: "buf' = buf" "rs' = rs" by simp_all
  let ?st2 = "emit (ReadEv sConn buf None)
               ((set_deadlines sConn oConn timeout now st)\<lparr>reads := rs\<rparr>)"
  have t2: "trace ?st2 = trace st @
             [SetDeadline sConn (now (ticks st) + timeout),
              SetDeadline oConn (now (ticks st + 1) + timeout),
              ReadEv sConn buf None]"
    "count ?st2 = count st" "ticks ?st2 = ticks st + 2" "writes ?st2 = writes st"
    "reads ?st2 = rs"
    by (simp_all add: emit_def set_deadlines_def)
  from write_loop_run [OF stopped(3) [unfolded b]] obtain wevs tl where
    t: "trace st' = trace ?st2 @ wevs @ tl"
    and w: "\<forall>ev\<in>set wevs. \<exists>w n e. ev = WriteEv oConn w n e"
    and s: "writes ?st2 = write_results wevs @ writes st'"
    and a: "\<forall>pre w n e post. wevs = pre @ WriteEv oConn w n e # post \<longrightarrow>
           w = drop (length (written pre)) buf \<and> w \<noteq> [] \<and>
           (post \<noteq> [] \<or> r = Continue \<or> r = Blocked \<longrightarrow> e = None \<and> 0 \<le> n \<and> n \<le> int (length w))"
    and p: "prefix (written wevs) buf"
    and c: "count st' = count ?st2" "ticks st' = ticks ?st2" "reads st' = reads ?st2"
    and k: "(case r of
          Continue \<Rightarrow> tl = [] \<and> written wevs = buf \<and> \<not> list_ex failed_write wevs
        | Return e \<Rightarrow> tl = [Send e] \<and> wevs \<noteq> [] \<and>
            (\<exists>w n err. last wevs = WriteEv oConn w n (Some err) \<and>
               e = report write_error_prefix err)
        | Blocked \<Rightarrow> tl = [] \<and> writes st' = [] \<and> written wevs \<noteq> buf \<and>
            \<not> list_ex failed_write wevs
        | Panic \<Rightarrow> tl = [] \<and> wevs \<noteq> [] \<and>
            (\<exists>w n. last wevs = WriteEv oConn w n None \<and> (n < 0 \<or> int (length w) < n)))"
    by blast
  from t t2 c s
  have 1: "trace st' = trace st @
             [SetDeadline sConn (now (ticks st) + timeout),
              SetDeadline oConn (now (ticks st + 1) + timeout),
              ReadEv sConn buf None] @ wevs @ tl"
    and 2: "count st' = count st"
    and 3: "writes st = write_results wevs @ writes st'"
    and 4: "reads st' = rs" "ticks st' = ticks st + 2"
    by simp_all
  from stopped(2) have 5: "\<not> forwardBufSize < length buf" unfolding b by simp
  have 6: "r \<noteq> Continue" by (rule stopped(4))
  have 7: "counter_values tl = []" using k 6 by (cases r) simp_all
  have 8: "\<forall>e. r = Return e \<longrightarrow>
             wevs \<noteq> [] \<and> failed_write (last wevs) \<and> tl = [Send e] \<and>
             (\<exists>w n err. last wevs = WriteEv oConn w n (Some err) \<and>
                e = (if err = EOF then EOF else Errorf write_error_prefix err))"
  proof (intro allI impI)
    fix e assume "r = Return e"
    with k obtain w n err where tl: "tl = [Send e]" and ne: "wevs \<noteq> []"
      and l: "last wevs = WriteEv oConn w n (Some err)"
      and e: "e = report write_error_prefix err"
      by auto
    from l have f: "failed_write (last wevs)" by (simp add: failed_write_def)
    from e have "e = (if err = EOF then EOF else Errorf write_error_prefix err)"
      by (simp add: report_def)
    with tl ne l f show "wevs \<noteq> [] \<and> failed_write (last wevs) \<and> tl = [Send e] \<and>
             (\<exists>w n err. last wevs = WriteEv oConn w n (Some err) \<and>
                e = (if err = EOF then EOF else Errorf write_error_prefix err))"
      by blast
  qed
  have 9: "r = Blocked \<longrightarrow>
             tl = [] \<and> writes st' = [] \<and> written wevs \<noteq> buf \<and> \<not> list_ex failed_write wevs"
    using k by (cases r) simp_all
  have 10: "r = Panic \<longrightarrow> tl = [] \<and> wevs \<noteq> [] \<and>
            (\<exists>w n. last wevs = WriteEv oConn w n None \<and> (n < 0 \<or> int (length w) < n))"
    using k by (cases r) simp_all
  show ?thesis
    apply (rule exI [of _ wevs])
    apply (rule exI [of _ tl])
    using 1 2 3 4 5 6 7 8 9 10 w a p
    apply (intro conjI)
                  apply blast+
    done
qed

theorem loop_body_writes_chunk_witness:
  "(\<exists>wevs tl.
      trace (snd (loop_body (Socket 0) (Socket 1) 600 4096 int
        \<lparr>reads = [([1, 2, 3], None)], writes = [(2, None), (1, None)],
         ticks = 0, count = 7, trace = []\<rparr>)) =
      [SetDeadline (Socket 0) 600, SetDeadline (Socket 1) 601, ReadEv (Socket 0) [1, 2, 3] None]
        @ wevs @ tl
      \<and> written wevs = [1, 2, 3] \<and> tl = [AddUint64 3 10])
   \<and> count (snd (loop_body (Socket 0) (Socket 1) 600 4096 int
        \<lparr>reads = [([1, 2, 3], None)], writes = [(2, None), (1, None)],
         ticks = 0, count = 7, trace = []\<rparr>)) = 10
   \<and> count (snd (loop_body (Socket 0) (Socket 1) 600 4096 int
        \<lparr>reads = [([1, 2, 3], None)], writes = [(2, None), (0, Some (errorString ''i/o timeout''))],
         ticks = 0, count = 7, trace = []\<rparr>)) = 7
   \<and> writes (snd (loop_body (Socket 0) (Socket 1) 600 4096 int
        \<lparr>reads = [([1, 2, 3], None)], writes = [(2, None)],
         ticks = 0, count = 7, trace = []\<rparr>)) = []
   \<and> (\<exists>wevs w n.
        wevs \<noteq> [] \<and> last wevs = WriteEv (Socket 1) w n None \<and> (n < 0 \<or> int (length w) < n) \<and>
        [(2, None), (5, None)] =
          write_results wevs @
          writes (snd (loop_body (Socket 0) (Socket 1) 600 4096 int
            \<lparr>reads = [([1, 2, 3], None)], writes = [(2, None), (5, None)],
             ticks = 0, count = 7, trace = []\<rparr>)))"
proof -
  let ?a = "\<lparr>reads = [([1, 2, 3], None)], writes = [(2, None), (1, None)],
         ticks = 0, count = 7, trace = []\<rparr> :: conn task"
  let ?b = "\<lparr>reads = [([1, 2, 3], None)],
         writes = [(2, None), (0, Some (errorString ''i/o timeout''))],
         ticks = 0, count = 7, trace = []\<rparr> :: conn task"
  let ?c = "\<lparr>reads = [([1, 2, 3], None)], writes = [(2, None)],
         ticks = 0, count = 7, trace = []\<rparr> :: conn task"
  let ?d = "\<lparr>reads = [([1, 2, 3], None)], writes = [(2, None), (5, None)],
         ticks = 0, count = 7, trace = []\<rparr> :: conn task"
  let ?ra = "loop_body (Socket 0) (Socket 1) 600 4096 int ?a"
  let ?rb = "loop_body (Socket 0) (Socket 1) 600 4096 int ?b"
  let ?rc = "loop_body (Socket 0) (Socket 1) 600 4096 int ?c"
  let ?rd = "loop_body (Socket 0) (Socket 1) 600 4096 int ?d"
  have ra: "reads ?a = ([1, 2, 3], None) # []" and rb: "reads ?b = ([1, 2, 3], None) # []"
    and rc: "reads ?c = ([1, 2, 3], None) # []" and rd: "reads ?d = ([1, 2, 3], None) # []"
    by simp_all
  have "fst ?ra = Continue" by code_simp
  then have ha: "?ra = (Continue, snd ?ra)" by (metis prod.collapse)
  have "fst ?rb = Return (Errorf write_error_prefix (errorString ''i/o timeout''))"
    by code_simp
  then have hb: "?rb = (Return (Errorf write_error_prefix (errorString ''i/o timeout'')), snd ?rb)"
    by (metis prod.collapse)
  have "fst ?rc = Blocked" by code_simp
  then have hc: "?rc = (Blocked, snd ?rc)" by (metis prod.collapse)
  have "fst ?rd = Panic" by code_simp
  then have hd: "?rd = (Panic, snd ?rd)" by (metis prod.collapse)
  have small: "\<not> (4096::nat) < length [1, 2, 3 :: byte]" by simp
  from loop_body_writes_chunk [OF ra ha]
  have a: "(\<exists>wevs tl.
      trace (snd ?ra) =
      [SetDeadline (Socket 0) 600, SetDeadline (Socket 1) 601, ReadEv (Socket 0) [1, 2, 3] None]
        @ wevs @ tl
      \<and> written wevs = [1, 2, 3] \<and> tl = [AddUint64 3 10]) \<and> count (snd ?ra) = 10"
    by auto
  from loop_body_writes_chunk [OF rb hb]
  have b: "count (snd ?rb) = 7" by auto
  from loop_body_writes_chunk [OF rc hc]
  have c: "writes (snd ?rc) = []" by auto
  from loop_body_writes_chunk [OF rd hd] obtain wevs where
    s: "writes ?d = write_results wevs @ writes (snd ?rd)"
    and p: "Panic = Panic \<longrightarrow> (4096 < length [1, 2, 3 :: byte] \<and> wevs = [] \<or>
         wevs \<noteq> [] \<and> (\<exists>w n. last wevs = WriteEv (Socket 1) w n None \<and>
           (n < 0 \<or> int (length w) < n)))"
    by blast
  from p small obtain w n where "wevs \<noteq> []" "last wevs = WriteEv (Socket 1) w n None"
    "n < 0 \<or> int (length w) < n"
    by blast
  with s have d: "\<exists>wevs w n.
        wevs \<noteq> [] \<and> last wevs = WriteEv (Socket 1) w n None \<and> (n < 0 \<or> int (length w) < n) \<and>
        [(2, None), (5, None)] = write_results wevs @ writes (snd ?rd)"
    by auto
  from a b c d show ?thesis by blast
qed





text \<open>
  C6. In the trace of a task, every \<open>Read\<close> is on the source connection and comes
  right after two \<open>SetDeadline\<close> calls, on the source and then on the destination, each
  with a fresh reading of the clock plus the timeout: the k-th read (counting from 0) of
  a task that starts with \<open>ticks\<close> clock readings behind it uses readings
  \<open>ticks + 2k\<close> and \<open>ticks + 2k + 1\<close>.
\<close>

theorem deadlines_renewed_before_every_read:
  assumes "forwardConn_dir sConn oConn timeout forwardBufSize now st = (r, st')"
  shows "\<exists>evs. trace st' = trace st @ evs \<and>
     (\<forall>pre c buf err post. evs = pre @ ReadEv c buf err # post \<longrightarrow>
        c = sConn \<and> (\<exists>pre'. pre = pre' @
          [SetDeadline sConn (now (ticks st + 2 * length (filter is_ReadEv pre)) + timeout),
           SetDeadline oConn (now (ticks st + 2 * length (filter is_ReadEv pre) + 1) + timeout)]))"
  using assms
proof (induction rule: forwardConn_dir_run)
  case (stop st)
  have none: "\<forall>pre c buf err post. ([] :: 'a event list) = pre @ ReadEv c buf err # post \<longrightarrow>
        c = sConn \<and> (\<exists>pre'. pre = pre' @
          [SetDeadline sConn (now (ticks st + 2 + 2 * length (filter is_ReadEv pre)) + timeout),
           SetDeadline oConn (now (ticks st + 2 + 2 * length (filter is_ReadEv pre) + 1) + timeout)])"
    by simp
  from stop(1) show ?case
  proof (cases rule: loop_body_events)
    case blocked
    have "\<forall>pre c buf err post.
        [SetDeadline sConn (now (ticks st) + timeout),
         SetDeadline oConn (now (ticks st + 1) + timeout)] \<noteq> pre @ ReadEv c buf err # post"
      by (auto simp: Cons_eq_append_conv)
    with blocked(1) show ?thesis by blast
  next
    case (read_error buf err rs)
    from reads_guarded_step [OF _ none, of "[Send (report read_error_prefix err)]" buf "Some err"]
      read_error(1)
    show ?thesis by (intro exI [of _ "[SetDeadline sConn (now (ticks st) + timeout),
         SetDeadline oConn (now (ticks st + 1) + timeout), ReadEv sConn buf (Some err),
         Send (report read_error_prefix err)]"]) simp
  next
    case (panic buf rs)
    from reads_guarded_step [OF _ none, of "[]" buf None] panic(1)
    show ?thesis by (intro exI [of _ "[SetDeadline sConn (now (ticks st) + timeout),
         SetDeadline oConn (now (ticks st + 1) + timeout), ReadEv sConn buf None]"]) simp
  next
    case (writes buf rs wevs tl)
    have tl: "\<not> list_ex is_ReadEv tl" using writes(7) by (cases r) auto
    have "\<not> list_ex is_ReadEv wevs" using writes(2) by (auto simp: list_ex_iff)
    with tl have m: "\<not> list_ex is_ReadEv (wevs @ tl)" by simp
    from reads_guarded_step [OF m none, of buf None] writes(1)
    show ?thesis by (intro exI [of _ "[SetDeadline sConn (now (ticks st) + timeout),
         SetDeadline oConn (now (ticks st + 1) + timeout), ReadEv sConn buf None] @ wevs @ tl"])
        simp
  qed
next
  case (continue st st1)
  from loop_body_continue [OF continue(1)] obtain buf wevs where
    t1: "trace st1 = trace st @
             [SetDeadline sConn (now (ticks st) + timeout),
              SetDeadline oConn (now (ticks st + 1) + timeout),
              ReadEv sConn buf None] @ wevs @
             [AddUint64 (of_nat (length buf)) (count st + of_nat (length buf))]"
    and w: "\<forall>ev\<in>set wevs. \<exists>w n. ev = WriteEv oConn w n None"
    and k: "ticks st1 = ticks st + 2"
    by blast
  let ?rest = "wevs @ [AddUint64 (of_nat (length buf)) (count st + of_nat (length buf))]"
  have m: "\<not> list_ex is_ReadEv ?rest" using w by (auto simp: list_ex_iff)
  from continue(3) obtain evs2 where t2: "trace st' = trace st1 @ evs2"
    and g: "\<forall>pre c buf err post. evs2 = pre @ ReadEv c buf err # post \<longrightarrow>
        c = sConn \<and> (\<exists>pre'. pre = pre' @
          [SetDeadline sConn (now (ticks st + 2 + 2 * length (filter is_ReadEv pre)) + timeout),
           SetDeadline oConn (now (ticks st + 2 + 2 * length (filter is_ReadEv pre) + 1) + timeout)])"
    unfolding k by blast
  from reads_guarded_step [OF m g, of buf None] t1 t2
  show ?case
    by (intro exI [of _ "(SetDeadline sConn (now (ticks st) + timeout) #
         SetDeadline oConn (now (ticks st + 1) + timeout) # ReadEv sConn buf None # ?rest) @ evs2"])
       simp
qed

theorem deadlines_renewed_before_every_read_witness:
  "trace (snd (forwardConn_dir (Socket 0) (Socket 1) 600 4096 int
          \<lparr>reads = [([1], None), ([], Some EOF)], writes = [(1, None)],
           ticks = 0, count = 0, trace = []\<rparr>)) =
     [SetDeadline (Socket 0) 600, SetDeadline (Socket 1) 601, ReadEv (Socket 0) [1] None,
      WriteEv (Socket 1) [1] 1 None, AddUint64 1 1,
      SetDeadline (Socket 0) 602, SetDeadline (Socket 1) 603, ReadEv (Socket 0) [] (Some EOF),
      Send EOF]
   \<and> (\<exists>pre'. [SetDeadline (Socket 0) 600, SetDeadline (Socket 1) 601,
               ReadEv (Socket 0) [1] None, WriteEv (Socket 1) [1] 1 None, AddUint64 1 1,
               SetDeadline (Socket 0) 602, SetDeadline (Socket 1) 603] =
              pre' @ [SetDeadline (Socket 0) (int 2 + 600), SetDeadline (Socket 1) (int 3 + 600)])"
proof -
  let ?st = "\<lparr>reads = [([1], None), ([], Some EOF)], writes = [(1, None)],
           ticks = 0, count = 0, trace = []\<rparr> :: conn task"
  let ?run = "forwardConn_dir (Socket 0) (Socket 1) 600 4096 int ?st"
  let ?pre = "[SetDeadline (Socket 0) 600, SetDeadline (Socket 1) 601,
               ReadEv (Socket 0) [1] None, WriteEv (Socket 1) [1] 1 None, AddUint64 1 1,
               SetDeadline (Socket 0) 602, SetDeadline (Socket 1) 603]"
  have tr: "trace (snd ?run) = ?pre @ ReadEv (Socket 0) [] (Some EOF) # [Send EOF]"
    by code_simp
  have h: "?run = (fst ?run, snd ?run)" by simp
  from deadlines_renewed_before_every_read [OF h] obtain evs where
    t: "trace (snd ?run) = trace ?st @ evs"
    and g: "\<forall>pre c buf err post. evs = pre @ ReadEv c buf err # post \<longrightarrow>
        c = Socket 0 \<and> (\<exists>pre'. pre = pre' @
          [SetDeadline (Socket 0) (int (ticks ?st + 2 * length (filter is_ReadEv pre)) + 600),
           SetDeadline (Socket 1) (int (ticks ?st + 2 * length (filter is_ReadEv pre) + 1) + 600)])"
    by blast
  from t tr have "evs = ?pre @ ReadEv (Socket 0) [] (Some EOF) # [Send EOF]" by simp
  with g have "\<exists>pre'. ?pre = pre' @
          [SetDeadline (Socket 0) (int (ticks ?st + 2 * length (filter is_ReadEv ?pre)) + 600),
           SetDeadline (Socket 1) (int (ticks ?st + 2 * length (filter is_ReadEv ?pre) + 1) + 600)]"
    by blast
  then have "\<exists>pre'. ?pre = pre' @
      [SetDeadline (Socket 0) (int 2 + 600), SetDeadline (Socket 1) (int 3 + 600)]"
    by simp
  with tr show ?thesis by simp
qed

text \<open>
  C5, as the claim states it, fails: a \<open>Write\<close> that accepts 4 bytes of a 10-byte
  chunk and reports a timeout ends the task with the counter still at 0, although the
  destination accepted 4 bytes.
\<close>

theorem partial_write_not_counted:
  "fst (forwardConn_dir (Socket 0) (Socket 1) 600 4096 int
          \<lparr>reads = [([1, 2, 3, 4, 5, 6, 7, 8, 9, 10], None)],
           writes = [(4, Some (errorString ''i/o timeout''))],
           ticks = 0, count = 0, trace = []\<rparr>) =
     Return (Errorf write_error_prefix (errorString ''i/o timeout''))
   \<and> count (snd (forwardConn_dir (Socket 0) (Socket 1) 600 4096 int
          \<lparr>reads = [([1, 2, 3, 4, 5, 6, 7, 8, 9, 10], None)],
           writes = [(4, Some (errorString ''i/o timeout''))],
           ticks = 0, count = 0, trace = []\<rparr>)) = 0
   \<and> written (trace (snd (forwardConn_dir (Socket 0) (Socket 1) 600 4096 int
          \<lparr>reads = [([1, 2, 3, 4, 5, 6, 7, 8, 9, 10], None)],
           writes = [(4, Some (errorString ''i/o timeout''))],
           ticks = 0, count = 0, trace = []\<rparr>))) = [1, 2, 3, 4]"
  by code_simp

text \<open>
  C5, amended. The counter ends at its initial value plus k (modulo \<open>2^64\<close>), where k is
  at most the number of bytes the destination accepted, and is exactly that number when
  the task reported its terminal event without any write having failed. The last value
  the counter took is its final value. As long as the initial value plus the bytes
  accepted stays below \<open>2^64\<close>, the values the counter takes never decrease.
\<close>

theorem counter_counts_flushed_chunks:
  assumes "forwardConn_dir sConn oConn timeout forwardBufSize now st = (r, st')"
  shows "\<exists>evs k. trace st' = trace st @ evs
     \<and> k \<le> length (written evs) \<and> count st' = count st + of_nat k
     \<and> ((\<exists>e. r = Return e) \<and> \<not> list_ex failed_write evs \<longrightarrow> k = length (written evs))
     \<and> last (count st # counter_values evs) = count st'
     \<and> (unat (count st) + length (written evs) < 2 ^ 64 \<longrightarrow>
          sorted (map unat (count st # counter_values evs)) \<and>
          unat (count st') = unat (count st) + k)"
  using assms
proof (induction rule: forwardConn_dir_run)
  case (stop st)
  from stop(1) show ?case
  proof (cases rule: loop_body_events)
    case blocked
    then show ?thesis
      by (intro exI [of _ "[SetDeadline sConn (now (ticks st) + timeout),
         SetDeadline oConn (now (ticks st + 1) + timeout)]"] exI [of _ 0]) simp
  next
    case (read_error buf err rs)
    then show ?thesis
      by (intro exI [of _ "[SetDeadline sConn (now (ticks st) + timeout),
         SetDeadline oConn (now (ticks st + 1) + timeout), ReadEv sConn buf (Some err),
         Send (report read_error_prefix err)]"] exI [of _ 0]) simp
  next
    case (panic buf rs)
    then show ?thesis
      by (intro exI [of _ "[SetDeadline sConn (now (ticks st) + timeout),
         SetDeadline oConn (now (ticks st + 1) + timeout), ReadEv sConn buf None]"]
          exI [of _ 0]) simp
  next
    case (writes buf rs wevs tl)
    let ?evs = "[SetDeadline sConn (now (ticks st) + timeout),
         SetDeadline oConn (now (ticks st + 1) + timeout), ReadEv sConn buf None] @ wevs @ tl"
    from writes(7) stop(2) have c: "count st' = count st" and tl: "counter_values tl = []"
      by (cases r; simp)+
    have cv: "counter_values ?evs = []"
      using counter_values_writes [OF writes(2)] tl by (simp add: counter_values_append)
    have f: "(\<exists>e. r = Return e) \<longrightarrow> list_ex failed_write ?evs"
    proof
      assume "\<exists>e. r = Return e"
      then obtain e where "r = Return e" ..
      with writes(7) obtain w n err where "wevs \<noteq> []" "last wevs = WriteEv oConn w n (Some err)"
        by auto
      then have "WriteEv oConn w n (Some err) \<in> set wevs" by (metis last_in_set)
      moreover have "failed_write (WriteEv oConn w n (Some err))" by (simp add: failed_write_def)
      ultimately have "list_ex failed_write wevs" unfolding list_ex_iff by blast
      then show "list_ex failed_write ?evs" by simp
    qed
    have a: "trace st' = trace st @ ?evs" using writes(1) by simp
    have b: "(0::nat) \<le> length (written ?evs)" by simp
    have c': "count st' = count st + of_nat 0" using c by simp
    have d: "(\<exists>e. r = Return e) \<and> \<not> list_ex failed_write ?evs \<longrightarrow>
               0 = length (written ?evs)"
      using f by blast
    have e: "last (count st # counter_values ?evs) = count st'" unfolding cv using c by simp
    have g: "unat (count st) + length (written ?evs) < 2 ^ 64 \<longrightarrow>
          sorted (map unat (count st # counter_values ?evs)) \<and>
          unat (count st') = unat (count st) + 0"
      unfolding cv using c by simp
    from a b c' d e g show ?thesis by blast
  qed
next
  case (continue st st1)
  from loop_body_continue [OF continue(1)] obtain buf wevs where
    t1: "trace st1 = trace st @
             [SetDeadline sConn (now (ticks st) + timeout),
              SetDeadline oConn (now (ticks st + 1) + timeout),
              ReadEv sConn buf None] @ wevs @
             [AddUint64 (of_nat (length buf)) (count st + of_nat (length buf))]"
    and w: "\<forall>ev\<in>set wevs. \<exists>w n. ev = WriteEv oConn w n None"
    and wr: "written wevs = buf"
    and c1: "count st1 = count st + of_nat (length buf)"
    by blast
  let ?evs1 = "[SetDeadline sConn (now (ticks st) + timeout),
              SetDeadline oConn (now (ticks st + 1) + timeout),
              ReadEv sConn buf None] @ wevs @
             [AddUint64 (of_nat (length buf)) (count st + of_nat (length buf))]"
  from w have w': "\<forall>ev\<in>set wevs. \<exists>w n e. ev = WriteEv oConn w n e" by blast
  have wr1: "written ?evs1 = buf" using wr by (simp add: written_append)
  have cv1: "counter_values ?evs1 = [count st1]"
    using counter_values_writes [OF w'] c1 by (simp add: counter_values_append)
  from continue(3) obtain evs2 k2 where t2: "trace st' = trace st1 @ evs2"
    and k2: "k2 \<le> length (written evs2)" and c2: "count st' = count st1 + of_nat k2"
    and x2: "(\<exists>e. r = Return e) \<and> \<not> list_ex failed_write evs2 \<longrightarrow> k2 = length (written evs2)"
    and l2: "last (count st1 # counter_values evs2) = count st'"
    and s2: "unat (count st1) + length (written evs2) < 2 ^ 64 \<longrightarrow>
          sorted (map unat (count st1 # counter_values evs2)) \<and>
          unat (count st') = unat (count st1) + k2"
    by blast
  let ?evs = "?evs1 @ evs2"
  let ?k = "length buf + k2"
  have a: "trace st' = trace st @ ?evs" using t1 t2 by simp
  have wr': "written ?evs = buf @ written evs2"
    using wr1 by (subst written_append) simp
  have b: "?k \<le> length (written ?evs)" using k2 unfolding wr' by simp
  have c: "count st' = count st + of_nat ?k" using c1 c2 by simp
  have d: "(\<exists>e. r = Return e) \<and> \<not> list_ex failed_write ?evs \<longrightarrow> ?k = length (written ?evs)"
    using x2 unfolding wr' by simp
  have cv: "counter_values ?evs = count st1 # counter_values evs2"
    using cv1 by (subst counter_values_append) simp
  have e: "last (count st # counter_values ?evs) = count st'"
    using l2 unfolding cv by simp
  have f: "unat (count st) + length (written ?evs) < 2 ^ 64 \<longrightarrow>
          sorted (map unat (count st # counter_values ?evs)) \<and>
          unat (count st') = unat (count st) + ?k"
  proof
    assume nw: "unat (count st) + length (written ?evs) < 2 ^ 64"
    then have nw1: "unat (count st) + length buf < 2 ^ 64" unfolding wr' by simp
    have u1: "unat (count st1) = unat (count st) + length buf"
      unfolding c1 by (rule unat_add_of_nat [OF nw1])
    from nw have "unat (count st1) + length (written evs2) < 2 ^ 64"
      unfolding wr' u1 by simp
    with s2 have s: "sorted (map unat (count st1 # counter_values evs2))"
      and u: "unat (count st') = unat (count st1) + k2"
      by simp_all
    from s u1 have "sorted (map unat (count st # counter_values ?evs))"
      unfolding cv by auto
    with u u1 show "sorted (map unat (count st # counter_values ?evs)) \<and>
          unat (count st') = unat (count st) + ?k"
      by simp
  qed
  from a b c d e f show ?case by blast
qed

theorem counter_counts_flushed_chunks_witness:
  "count (snd (forwardConn_dir (Socket 0) (Socket 1) 600 4096 int
          \<lparr>reads = [([1, 2, 3], None), ([4, 5], None), ([], Some EOF)],
           writes = [(2, None), (1, None), (2, None)],
           ticks = 0, count = 7, trace = []\<rparr>)) = 12
   \<and> sorted (map unat (7 # counter_values (trace (snd
        (forwardConn_dir (Socket 0) (Socket 1) 600 4096 int
          \<lparr>reads = [([1, 2, 3], None), ([4, 5], None), ([], Some EOF)],
           writes = [(2, None), (1, None), (2, None)],
           ticks = 0, count = 7, trace = []\<rparr>)))))
   \<and> written (trace (snd (forwardConn_dir (Socket 0) (Socket 1) 600 4096 int
          \<lparr>reads = [([1, 2, 3], None), ([4, 5], None), ([], Some EOF)],
           writes = [(2, None), (1, None), (2, None)],
           ticks = 0, count = 7, trace = []\<rparr>))) = [1, 2, 3, 4, 5]"
proof -
  let ?st = "\<lparr>reads = [([1, 2, 3], None), ([4, 5], None), ([], Some EOF)],
           writes = [(2, None), (1, None), (2, None)],
           ticks = 0, count = 7, trace = []\<rparr> :: conn task"
  let ?run = "forwardConn_dir (Socket 0) (Socket 1) 600 4096 int ?st"
  have "fst ?run = Return EOF" by code_simp
  then have h: "?run = (Return EOF, snd ?run)" by (metis prod.collapse)
  have wr: "written (trace (snd ?run)) = [1, 2, 3, 4, 5]" by code_simp
  have nf: "\<not> list_ex failed_write (trace (snd ?run))" by code_simp
  from counter_counts_flushed_chunks [OF h] obtain evs k where
    t: "trace (snd ?run) = trace ?st @ evs"
    and c: "count (snd ?run) = count ?st + of_nat k"
    and x: "(\<exists>e. Return EOF = Return e) \<and> \<not> list_ex failed_write evs \<longrightarrow>
              k = length (written evs)"
    and s: "unat (count ?st) + length (written evs) < 2 ^ 64 \<longrightarrow>
          sorted (map unat (count ?st # counter_values evs)) \<and>
          unat (count (snd ?run)) = unat (count ?st) + k"
    by blast
  from t have evs: "evs = trace (snd ?run)" by simp
  from x nf have k: "k = 5" unfolding evs wr by simp
  have "unat (count ?st) + length (written evs) < 2 ^ 64" unfolding evs wr by simp
  with s have "sorted (map unat (count ?st # counter_values evs))" by blast
  then have so: "sorted (map unat (7 # counter_values (trace (snd ?run))))"
    unfolding evs by simp
  from c k have "count (snd ?run) = 12" by simp
  with so wr show ?thesis by blast
qed


section \<open>Properties of forwardConn\<close>

text \<open>
  C4. A session starts with an empty channel, both directions running and the caller
  receiving. In every state it can reach, whatever the two directions do and however
  their steps interleave: a direction is still running, with the terminal event of its
  own run to send, or has finished and its event is among those sent; the events sent
  are as many as the directions that finished, and every one of them is the terminal
  event of one of the two runs; the channel holds the events sent in order, less the
  first once the caller has taken it. So the channel holds at most 2 events, below its
  capacity of 10, and a direction that has a terminal event to report can always send it
  and finish; the caller, once it has returned, has returned the first event sent, which
  is the terminal event of one of the two directions, and keeps that value. Every step
  brings the session closer to its end, so no schedule runs for ever. When no step is
  left and at least one direction reports, the caller has returned the first event sent
  and every reporting direction has finished.
\<close>

theorem forwardConn_first_event:
  assumes "rtranclp step
             (forwardConn sConn oConn timeout forwardBufSize now send_st recv_st) s"
  defines "a \<equiv> terminal (fst (forwardConn_dir sConn oConn timeout forwardBufSize now send_st))"
    and "b \<equiv> terminal (fst (forwardConn_dir oConn sConn timeout forwardBufSize now recv_st))"
  shows "length (errChan s) \<le> 2 \<and> 2 \<le> errChan_cap
     \<and> (\<forall>e. send_task s = Running (Some e) \<or> recv_task s = Running (Some e) \<longrightarrow>
           (\<exists>s'. step s s'))
     \<and> (\<forall>e. caller s = Returned e \<longrightarrow> sent s \<noteq> [] \<and> e = hd (sent s))
     \<and> (\<forall>e s'. caller s = Returned e \<and> step s s' \<longrightarrow> caller s' = Returned e)
     \<and> (\<forall>s'. step s s' \<longrightarrow> pending s' < pending s)
     \<and> ((\<nexists>s'. step s s') \<and> (a \<noteq> None \<or> b \<noteq> None) \<longrightarrow>
           caller s = Returned (hd (sent s)) \<and>
           (a \<noteq> None \<longrightarrow> send_task s = Finished) \<and> (b \<noteq> None \<longrightarrow> recv_task s = Finished))
     \<and> forwardConn sConn oConn timeout forwardBufSize now send_st recv_st =
           \<lparr>errChan = [], send_task = Running a, recv_task = Running b,
            caller = Receiving, sent = []\<rparr>
     \<and> (\<forall>e. caller s = Returned e \<longrightarrow> a = Some e \<or> b = Some e)
     \<and> set (sent s) \<subseteq> set_option a \<union> set_option b
     \<and> length (sent s) =
           (if send_task s = Finished then 1 else 0) + (if recv_task s = Finished then 1 else 0)
     \<and> (send_task s = Running a \<or>
          send_task s = Finished \<and> (\<exists>e. a = Some e \<and> e \<in> set (sent s)))
     \<and> (recv_task s = Running b \<or>
          recv_task s = Finished \<and> (\<exists>e. b = Some e \<and> e \<in> set (sent s)))
     \<and> (caller s = Receiving \<longrightarrow> errChan s = sent s)
     \<and> (\<forall>e. caller s = Returned e \<longrightarrow> sent s = e # errChan s)"
proof -
  from assms(1) have "rtranclp step (session_start a b) s"
    by (simp add: forwardConn_def a_def b_def)
  then have inv: "session_inv a b s" by (rule session_inv_reachable)
  then have room: "length (errChan s) \<le> 2" by (rule session_inv_room)
  have cap: "2 \<le> errChan_cap" by (simp add: errChan_cap_def)
  from room have lt: "length (errChan s) < errChan_cap" by (simp add: errChan_cap_def)
  have sends: "\<exists>s'. step s s'"
    if "send_task s = Running (Some e) \<or> recv_task s = Running (Some e)" for e
    using that lt by (auto intro: step.intros)
  have first: "sent s \<noteq> [] \<and> e = hd (sent s)" if "caller s = Returned e" for e
    using that inv by (auto simp: session_inv_def)
  have once: "caller s' = Returned e" if "caller s = Returned e \<and> step s s'" for e s'
  proof -
    from that have "step s s'" and "caller s = Returned e" by simp_all
    then show ?thesis by (induction rule: step.induct) auto
  qed
  have fin: "caller s = Returned (hd (sent s)) \<and>
           (a \<noteq> None \<longrightarrow> send_task s = Finished) \<and> (b \<noteq> None \<longrightarrow> recv_task s = Finished)"
    if stuck: "\<nexists>s'. step s s'" and some: "a \<noteq> None \<or> b \<noteq> None"
  proof -
    from stuck sends have ns: "\<forall>e. send_task s \<noteq> Running (Some e)"
      and nr: "\<forall>e. recv_task s \<noteq> Running (Some e)"
      by blast+
    from inv ns have fa: "a \<noteq> None \<longrightarrow> send_task s = Finished"
      by (auto simp: session_inv_def)
    from inv nr have fb: "b \<noteq> None \<longrightarrow> recv_task s = Finished"
      by (auto simp: session_inv_def)
    from fa fb some inv have ne: "sent s \<noteq> []"
      by (auto simp: session_inv_def split: if_splits)
    have "caller s \<noteq> Receiving"
    proof
      assume r: "caller s = Receiving"
      with inv have "errChan s = sent s" by (simp add: session_inv_def)
      with ne obtain e q where "errChan s = e # q" by (metis neq_Nil_conv)
      with r have "step s (s\<lparr>errChan := q, caller := Returned e\<rparr>)" by (rule step.receive)
      with stuck show False by blast
    qed
    then obtain e where "caller s = Returned e" by (cases "caller s") auto
    with first [OF this] fa fb show ?thesis by simp
  qed
  have fewer: "pending s' < pending s" if "step s s'" for s'
    using that by (rule step_pending)
  have start: "forwardConn sConn oConn timeout forwardBufSize now send_st recv_st =
           \<lparr>errChan = [], send_task = Running a, recv_task = Running b,
            caller = Receiving, sent = []\<rparr>"
    by (simp add: forwardConn_def session_start_def a_def b_def)
  from inv have events: "set (sent s) \<subseteq> set_option a \<union> set_option b"
    and count: "length (sent s) =
           (if send_task s = Finished then 1 else 0) + (if recv_task s = Finished then 1 else 0)"
    and ta: "send_task s = Running a \<or>
          send_task s = Finished \<and> (\<exists>e. a = Some e \<and> e \<in> set (sent s))"
    and tb: "recv_task s = Running b \<or>
          recv_task s = Finished \<and> (\<exists>e. b = Some e \<and> e \<in> set (sent s))"
    by (simp_all add: session_inv_def)
  from inv have fifo1: "caller s = Receiving \<longrightarrow> errChan s = sent s"
    and fifo2: "\<forall>e. caller s = Returned e \<longrightarrow> sent s = e # errChan s"
    by (auto simp: session_inv_def)
  have whose: "a = Some e \<or> b = Some e" if "caller s = Returned e" for e
  proof -
    from that fifo2 have "e \<in> set (sent s)" by simp
    with events show ?thesis by (cases a; cases b) auto
  qed
  show ?thesis
    using room cap sends first once fewer fin start whose events count ta tb fifo1 fifo2
    by (intro conjI) blast+
qed



theorem forwardConn_first_event_witness:
  "rtranclp step
     (forwardConn (Socket 0) (Socket 1) 600 4096 int
        \<lparr>reads = [([], Some (errorString ''reset''))], writes = [], ticks = 0, count = 0,
         trace = []\<rparr>
        \<lparr>reads = [([], Some EOF)], writes = [], ticks = 0, count = 0, trace = []\<rparr>)
     \<lparr>errChan = [Errorf read_error_prefix (errorString ''reset'')], send_task = Finished,
      recv_task = Finished, caller = Returned EOF,
      sent = [EOF, Errorf read_error_prefix (errorString ''reset'')]\<rparr>
   \<and> (\<nexists>s'. step
         \<lparr>errChan = [Errorf read_error_prefix (errorString ''reset'')], send_task = Finished,
          recv_task = Finished, caller = Returned EOF,
          sent = [EOF, Errorf read_error_prefix (errorString ''reset'')]\<rparr> s')
   \<and> hd [EOF, Errorf read_error_prefix (errorString ''reset'')] = EOF
   \<and> (terminal (fst (forwardConn_dir (Socket 0) (Socket 1) 600 4096 int
          \<lparr>reads = [([], Some (errorString ''reset''))], writes = [], ticks = 0, count = 0,
           trace = []\<rparr>)) = Some EOF
        \<or> terminal (fst (forwardConn_dir (Socket 1) (Socket 0) 600 4096 int
          \<lparr>reads = [([], Some EOF)], writes = [], ticks = 0, count = 0,
           trace = []\<rparr>)) = Some EOF)
   \<and> length [Errorf read_error_prefix (errorString ''reset'')] \<le> (2::nat)
   \<and> pending
         \<lparr>errChan = [Errorf read_error_prefix (errorString ''reset'')], send_task = Finished,
          recv_task = Finished, caller = Returned EOF,
          sent = [EOF, Errorf read_error_prefix (errorString ''reset'')]\<rparr>
       < pending
         \<lparr>errChan = [], send_task = Running (Some (Errorf read_error_prefix (errorString ''reset''))),
          recv_task = Finished, caller = Returned EOF, sent = [EOF]\<rparr>"
proof -
  let ?e = "Errorf read_error_prefix (errorString ''reset'')"
  let ?a = "\<lparr>reads = [([], Some (errorString ''reset''))], writes = [], ticks = 0, count = 0,
         trace = []\<rparr> :: conn task"
  let ?b = "\<lparr>reads = [([], Some EOF)], writes = [], ticks = 0, count = 0,
         trace = []\<rparr> :: conn task"
  let ?s0 = "forwardConn (Socket 0) (Socket 1) 600 4096 int ?a ?b"
  have ta: "terminal (fst (forwardConn_dir (Socket 0) (Socket 1) 600 4096 int ?a)) = Some ?e"
    by code_simp
  have tb: "terminal (fst (forwardConn_dir (Socket 1) (Socket 0) 600 4096 int ?b)) = Some EOF"
    by code_simp
  have s0: "?s0 = session_start (Some ?e) (Some EOF)"
    unfolding forwardConn_def ta tb ..
  let ?t0 = "session_start (Some ?e) (Some EOF)"
  let ?s1 = "?t0\<lparr>errChan := errChan ?t0 @ [EOF], recv_task := Finished,
                  sent := sent ?t0 @ [EOF]\<rparr>"
  let ?s2 = "?s1\<lparr>errChan := [], caller := Returned EOF\<rparr>"
  let ?s3 = "?s2\<lparr>errChan := errChan ?s2 @ [?e], send_task := Finished,
                  sent := sent ?s2 @ [?e]\<rparr>"
  have 1: "step ?t0 ?s1"
    by (rule step.recv_reports) (simp_all add: session_start_def errChan_cap_def)
  have 2: "step ?s1 ?s2"
    by (rule step.receive) (simp_all add: session_start_def)
  have 3: "step ?s2 ?s3"
    by (rule step.send_reports) (simp_all add: session_start_def errChan_cap_def)
  have r1: "rtranclp step ?t0 ?s1" using 1 by (rule r_into_rtranclp [of step])
  have r2: "rtranclp step ?t0 ?s2" using r1 2 by (rule rtranclp.rtrancl_into_rtrancl [of step])
  have r3: "rtranclp step ?t0 ?s3" using r2 3 by (rule rtranclp.rtrancl_into_rtrancl [of step])
  from r2 have r2': "rtranclp step ?s0 ?s2" unfolding s0 .
  from r3 have r: "rtranclp step ?s0 ?s3" unfolding s0 .
  have s2: "?s2 = \<lparr>errChan = [], send_task = Running (Some ?e),
      recv_task = Finished, caller = Returned EOF, sent = [EOF]\<rparr>"
    by (simp add: session_start_def)
  have s3: "?s3 = \<lparr>errChan = [?e], send_task = Finished,
      recv_task = Finished, caller = Returned EOF, sent = [EOF, ?e]\<rparr>"
    by (simp add: session_start_def)
  have final: "\<nexists>s'. step ?s3 s'"
    unfolding s3 by (auto elim: step.cases)
  have some: "terminal (fst (forwardConn_dir (Socket 0) (Socket 1) 600 4096 int ?a)) \<noteq> None"
    unfolding ta by simp
  from forwardConn_first_event [OF r] final some
  have room: "length (errChan ?s3) \<le> 2" and ret: "caller ?s3 = Returned (hd (sent ?s3))"
    by blast+
  have c3: "caller ?s3 = Returned EOF" by simp
  from forwardConn_first_event [OF r] c3
  have whose: "terminal (fst (forwardConn_dir (Socket 0) (Socket 1) 600 4096 int ?a)) = Some EOF
        \<or> terminal (fst (forwardConn_dir (Socket 1) (Socket 0) 600 4096 int ?b)) = Some EOF"
    by blast
  from forwardConn_first_event [OF r2'] 3
  have fewer: "pending ?s3 < pending ?s2" by blast
  from ret have first: "hd [EOF, ?e] = EOF" by (simp add: session_start_def)
  from room have room': "length [?e] \<le> (2::nat)" by (simp add: session_start_def)
  let ?x2 = "\<lparr>errChan = [], send_task = Running (Some ?e),
      recv_task = Finished, caller = Returned EOF, sent = [EOF]\<rparr>"
  let ?x3 = "\<lparr>errChan = [?e], send_task = Finished,
      recv_task = Finished, caller = Returned EOF, sent = [EOF, ?e]\<rparr>"
  from r have r': "rtranclp step ?s0 ?x3" unfolding s3 .
  from final have final': "\<nexists>s'. step ?x3 s'" unfolding s3 .
  from fewer have "pending ?x3 < pending ?s2" unfolding s3 .
  then have fewer': "pending ?x3 < pending ?x2" unfolding s2 .
  from r' final' first whose room' fewer' show ?thesis by blast
qed

end
